theory Spec2Isabelle
  imports Main "HOL-Library.Word" "HOL-Library.Log_Nat" "HOL-Library.Signed_Division"
begin

unbundle bit_operations_syntax

section \<open>Errors, requests and responses (response.go)\<close>

type_synonym byte = "8 word"

text \<open>
  Go's \<^verbatim>\<open>error\<close> values: the sentinel \<^verbatim>\<open>io.EOF\<close>, errors of the transport
  and of the operating system (opaque to this code, carried by their text), and the
  package's own errors. A nil error is \<open>None\<close>. The function \<^verbatim>\<open>newGrabError\<close> and
  the code \<^verbatim>\<open>errChecksumMismatch\<close> are declared in a file of the package that is not
  among the sources: an error built by \<^verbatim>\<open>newGrabError\<close> is kept as the call that
  builds it, with its code, its format string and its arguments.
\<close>

datatype errCode = errChecksumMismatch

datatype error = EOF | IOError string | newGrabError errCode string "string list"

text \<open>
  A \<^verbatim>\<open>hash.Hash\<close>: the digest function and the bytes absorbed so far;
  \<^verbatim>\<open>Write\<close> absorbs, \<^verbatim>\<open>Sum(nil)\<close> digests what was absorbed.
\<close>

record hash =
  digest :: "byte list \<Rightarrow> byte list"
  absorbed :: "byte list"

definition hash_Write :: "byte list \<Rightarrow> hash \<Rightarrow> hash" where
  "hash_Write p h = h\<lparr>absorbed := absorbed h @ p\<rparr>"

definition hash_Sum :: "hash \<Rightarrow> byte list" where
  "hash_Sum h = digest h (absorbed h)"

type_synonym chan = nat

record Request =
  Hash :: "hash option"
  Checksum :: "byte list option"
  RemoveOnError :: bool
  notifyOnCloseInternal :: "chan option"
  NotifyOnClose :: "chan option"

text \<open>
  The \<^verbatim>\<open>Response\<close> struct. \<^verbatim>\<open>Size\<close> and \<^verbatim>\<open>bytesTransferred\<close> are
  \<^verbatim>\<open>uint64\<close>, \<^verbatim>\<open>doneFlag\<close> is \<^verbatim>\<open>int32\<close>; times are nanoseconds on the
  clock's axis. The field \<^verbatim>\<open>writer\<close> is a nilable reference to the destination's
  \<^verbatim>\<open>io.WriteCloser\<close>, whose state is kept in the world below. The body of
  \<^verbatim>\<open>HTTPResponse\<close> is part of the world as well.
\<close>

type_synonym handle = nat

record Response =
  Request :: Request
  Filename :: string
  Size :: "64 word"
  Error :: "error option"
  Start :: int
  End :: int
  DidResume :: bool
  writer :: "handle option"
  bytesTransferred :: "64 word"
  doneFlag :: "32 word"

section \<open>float64 arithmetic\<close>

text \<open>
  Go's \<^verbatim>\<open>float64\<close> is IEEE 754 binary64. A value is a rational number with at most 53
  significant bits and an exponent in range, an infinity, or not-a-number. The two zeros
  are one value here; every zero these functions divide by is the positive one (the
  conversion of the integer 0, and sums and quotients of such), which is how a division
  by zero is signed below. \<open>rnd\<close> rounds a rational number to the nearest value, ties to
  the even significand: \<open>round_even\<close> rounds to an integer, \<open>ilog2\<close> is the binary
  exponent, \<open>quantize e\<close> rounds to a multiple of \<open>2 powi (e - 52)\<close>. Below
  \<open>2 powi (- 1022)\<close> the step stays \<open>2 powi (- 1074)\<close> (the subnormal numbers), and a
  result of \<open>2 powi 1024\<close> or more is an infinity. A division by zero does not panic: it
  gives an infinity, or not-a-number for \<open>0 / 0\<close>.
\<close>

datatype float64 = Finite rat | PosInf | NegInf | NaN

definition round_even :: "rat \<Rightarrow> int" where
  "round_even q =
     (let f = \<lfloor>q\<rfloor>; d = q - of_int f
      in if d < 1 / 2 then f else if 1 / 2 < d then f + 1 else if even f then f else f + 1)"

definition ilog2 :: "rat \<Rightarrow> int" where
  "ilog2 x =
     (let (p, q) = quotient_of x; d = bitlen p - bitlen q
      in if 2 powi d \<le> x then d else d - 1)"

definition quantize :: "int \<Rightarrow> rat \<Rightarrow> rat" where
  "quantize e a = of_int (round_even (a / 2 powi (e - 52))) * 2 powi (e - 52)"

definition rnd :: "rat \<Rightarrow> float64" where
  "rnd x =
     (if x = 0 then Finite 0
      else
        (let a = \<bar>x\<bar>; r = quantize (max (ilog2 a) (- 1022)) a
         in if 2 powi 1024 \<le> r then (if 0 < x then PosInf else NegInf)
            else Finite (if 0 < x then r else - r)))"

fun f64_div :: "float64 \<Rightarrow> float64 \<Rightarrow> float64" where
  "f64_div NaN y = NaN"
| "f64_div x NaN = NaN"
| "f64_div (Finite a) (Finite b) =
     (if b = 0 then (if a = 0 then NaN else if 0 < a then PosInf else NegInf)
      else rnd (a / b))"
| "f64_div (Finite a) PosInf = Finite 0"
| "f64_div (Finite a) NegInf = Finite 0"
| "f64_div PosInf (Finite b) = (if 0 \<le> b then PosInf else NegInf)"
| "f64_div NegInf (Finite b) = (if 0 \<le> b then NegInf else PosInf)"
| "f64_div x y = NaN"

fun f64_add :: "float64 \<Rightarrow> float64 \<Rightarrow> float64" where
  "f64_add NaN y = NaN"
| "f64_add x NaN = NaN"
| "f64_add (Finite a) (Finite b) = rnd (a + b)"
| "f64_add PosInf NegInf = NaN"
| "f64_add NegInf PosInf = NaN"
| "f64_add PosInf y = PosInf"
| "f64_add NegInf y = NegInf"
| "f64_add x PosInf = PosInf"
| "f64_add x NegInf = NegInf"

fun f64_less :: "float64 \<Rightarrow> float64 \<Rightarrow> bool" where
  "f64_less (Finite a) (Finite b) \<longleftrightarrow> a < b"
| "f64_less (Finite a) PosInf \<longleftrightarrow> True"
| "f64_less NegInf (Finite b) \<longleftrightarrow> True"
| "f64_less NegInf PosInf \<longleftrightarrow> True"
| "f64_less x y \<longleftrightarrow> False"

text \<open>The conversions \<^verbatim>\<open>float64(x)\<close> from \<^verbatim>\<open>uint64\<close> and from \<^verbatim>\<open>int64\<close>.\<close>

definition f64_of_uint64 :: "64 word \<Rightarrow> float64" where
  "f64_of_uint64 n = rnd (of_int (uint n))"

definition f64_of_int64 :: "int \<Rightarrow> float64" where
  "f64_of_int64 d = rnd (of_int d)"

section \<open>The accessors of \<^verbatim>\<open>Response\<close>\<close>

text \<open>
  Times are nanoseconds as integers. \<^verbatim>\<open>Time.Sub\<close> returns a \<^verbatim>\<open>Duration\<close>, an
  \<^verbatim>\<open>int64\<close> of nanoseconds, and saturates at its bounds. \<^verbatim>\<open>Duration.Seconds\<close> divides
  and takes the remainder as Go does (truncating towards zero) and adds the two parts as
  \<^verbatim>\<open>float64\<close>. The reading of \<^verbatim>\<open>time.Now()\<close> is the argument \<open>clock\<close>.
\<close>

definition Sub :: "int \<Rightarrow> int \<Rightarrow> int" where
  "Sub t u = max (- (2 ^ 63)) (min (2 ^ 63 - 1) (t - u))"

definition Seconds :: "int \<Rightarrow> float64" where
  "Seconds d =
     (let sec = d sdiv 1000000000; nsec = d smod 1000000000
      in f64_add (f64_of_int64 sec) (f64_div (f64_of_int64 nsec) (Finite 1000000000)))"

definition IsComplete :: "Response \<Rightarrow> bool" where
  "IsComplete c \<longleftrightarrow> 0 < sint (doneFlag c)"

definition BytesTransferred :: "Response \<Rightarrow> 64 word" where
  "BytesTransferred c = bytesTransferred c"

definition Progress :: "Response \<Rightarrow> float64" where
  "Progress c =
     (if Size c = 0 then Finite 0
      else f64_div (f64_of_uint64 (bytesTransferred c)) (f64_of_uint64 (Size c)))"

definition Duration :: "Response \<Rightarrow> int \<Rightarrow> int" where
  "Duration c clock =
     (if IsComplete c then Sub (End c) (Start c) else Sub clock (Start c))"

definition AverageBytesPerSecond :: "Response \<Rightarrow> int \<Rightarrow> float64" where
  "AverageBytesPerSecond c clock =
     f64_div (f64_of_uint64 (BytesTransferred c)) (Seconds (Duration c clock))"

section \<open>The world the transfer runs in\<close>

text \<open>
  Everything \<^verbatim>\<open>copy\<close> reaches through an interface or the operating system:
  \<^item> \<open>body\<close>: what the \<open>k\<close>-th call of \<^verbatim>\<open>Body.Read\<close> returns (bytes and error),
    \<open>nread\<close> the calls made so far. The stream is infinite, so a body that never
    ends is a value of the model;
  \<^item> \<open>wscript\<close>: what the \<open>k\<close>-th call of \<^verbatim>\<open>writer.Write\<close> does: \<open>None\<close> takes all bytes,
    \<open>Some (m, e)\<close> fails with \<open>e\<close> after taking at most \<open>m\<close> bytes; \<open>nwrite\<close> the calls
    made so far, \<open>written\<close> the bytes taken, \<open>wclosed\<close> the calls of \<^verbatim>\<open>writer.Close\<close>;
  \<^item> \<open>fs\<close>: the files by name, as \<^verbatim>\<open>os.Open\<close> finds them; \<open>open_fault\<close> makes
    \<^verbatim>\<open>os.Open\<close> fail, \<open>read_fault = Some (m, e)\<close> makes reading an opened file fail with
    \<open>e\<close> after \<open>m\<close> bytes, \<open>remove_fault\<close> makes \<^verbatim>\<open>os.Remove\<close> fail and leave the file
    in place; \<open>nopen\<close> and \<open>fclosed\<close> count \<^verbatim>\<open>os.Open\<close> calls and \<^verbatim>\<open>Close\<close> calls on
    the opened file;
  \<^item> \<open>now\<close>: the reading of \<^verbatim>\<open>time.Now()\<close>;
  \<^item> \<open>sent\<close>: the channels the response was sent on, in order.
\<close>

record world =
  body :: "nat \<Rightarrow> byte list \<times> error option"
  nread :: nat
  wscript :: "nat \<Rightarrow> (nat \<times> error) option"
  nwrite :: nat
  written :: "byte list"
  wclosed :: nat
  fs :: "string \<rightharpoonup> byte list"
  open_fault :: "error option"
  read_fault :: "(nat \<times> error) option"
  remove_fault :: "error option"
  nopen :: nat
  fclosed :: nat
  now :: int
  sent :: "chan list"

text \<open>
  \<^verbatim>\<open>Body.Read(buffer[:])\<close> with the 4096-byte buffer. An \<^verbatim>\<open>io.Reader\<close> returns
  \<open>0 \<le> n \<le> len(p)\<close>, so at most 4096 bytes of the scripted chunk arrive; \<open>n\<close> is the
  length of the bytes returned.
\<close>

definition Body_Read :: "world \<Rightarrow> (byte list \<times> error option) \<times> world" where
  "Body_Read w =
     (let (p, err) = body w (nread w)
      in ((take 4096 p, err), w\<lparr>nread := nread w + 1\<rparr>))"

text \<open>
  \<^verbatim>\<open>writer.Write(p)\<close>: an \<^verbatim>\<open>io.Writer\<close> takes all of \<open>p\<close> or returns an error.
\<close>

definition writer_Write :: "byte list \<Rightarrow> world \<Rightarrow> error option \<times> world" where
  "writer_Write p w =
     (case wscript w (nwrite w) of
        None \<Rightarrow> (None, w\<lparr>nwrite := nwrite w + 1, written := written w @ p\<rparr>)
      | Some (m, e) \<Rightarrow> (Some e, w\<lparr>nwrite := nwrite w + 1, written := written w @ take m p\<rparr>))"

definition writer_Close :: "world \<Rightarrow> world" where
  "writer_Close w = w\<lparr>wclosed := wclosed w + 1\<rparr>"

definition os_Open :: "string \<Rightarrow> world \<Rightarrow> (error + byte list) \<times> world" where
  "os_Open name w =
     (let w' = w\<lparr>nopen := nopen w + 1\<rparr>
      in case open_fault w of
           Some e \<Rightarrow> (Inl e, w')
         | None \<Rightarrow>
             (case fs w name of
                None \<Rightarrow> (Inl (IOError (''open '' @ name @ '': no such file or directory'')), w')
              | Some content \<Rightarrow> (Inr content, w')))"

definition file_Close :: "world \<Rightarrow> world" where
  "file_Close w = w\<lparr>fclosed := fclosed w + 1\<rparr>"

text \<open>
  \<^verbatim>\<open>io.Copy(h, f)\<close>: the hash absorbs the file; a read fault stops it early. Writing to
  a hash never fails.
\<close>

definition io_Copy :: "hash \<Rightarrow> byte list \<Rightarrow> world \<Rightarrow> error option \<times> hash" where
  "io_Copy h content w =
     (case read_fault w of
        None \<Rightarrow> (None, hash_Write content h)
      | Some (m, e) \<Rightarrow> (Some e, hash_Write (take m content) h))"

text \<open>
  \<^verbatim>\<open>os.Remove(name)\<close>: it returns an error and leaves the files as they are when the
  removal is refused or there is no such file.
\<close>

definition os_Remove :: "string \<Rightarrow> world \<Rightarrow> error option \<times> world" where
  "os_Remove name w =
     (case remove_fault w of
        Some e \<Rightarrow> (Some e, w)
      | None \<Rightarrow>
          (case fs w name of
             None \<Rightarrow> (Some (IOError (''remove '' @ name @ '': no such file or directory'')), w)
           | Some content \<Rightarrow> (None, w\<lparr>fs := (fs w)(name := None)\<rparr>)))"

definition chan_send :: "chan \<Rightarrow> world \<Rightarrow> world" where
  "chan_send ch w = w\<lparr>sent := sent w @ [ch]\<rparr>"

text \<open>\<^verbatim>\<open>hex.EncodeToString\<close>: two lower-case digits for each byte.\<close>

definition hextable :: string where
  "hextable = ''0123456789abcdef''"

fun EncodeToString :: "byte list \<Rightarrow> string" where
  "EncodeToString [] = []"
| "EncodeToString (b # bs) =
     hextable ! unat (drop_bit 4 b) # hextable ! unat (b AND 15) # EncodeToString bs"

section \<open>The finalizer \<^verbatim>\<open>close\<close>\<close>

definition close :: "error option \<Rightarrow> Response \<Rightarrow> world \<Rightarrow> error option \<times> Response \<times> world" where
  "close err c w =
     (let (c1, w1) = (if writer c \<noteq> None then (c\<lparr>writer := None\<rparr>, writer_Close w) else (c, w));
          c2 = c1\<lparr>Error := err\<rparr>;
          c3 = c2\<lparr>End := now w1\<rparr>;
          c4 = c3\<lparr>doneFlag := doneFlag c3 + 1\<rparr>;
          w2 = (case notifyOnCloseInternal (Request c4) of None \<Rightarrow> w1 | Some ch \<Rightarrow> chan_send ch w1);
          w3 = (case NotifyOnClose (Request c4) of None \<Rightarrow> w2 | Some ch \<Rightarrow> chan_send ch w2)
      in (err, c4, w3))"

section \<open>The copy loop\<close>

text \<open>
  One pass through the body of the \<^verbatim>\<open>for\<close> loop. \<open>Next\<close>: the loop goes on;
  \<open>Complete\<close>: end of stream, the writer was closed and \<^verbatim>\<open>complete\<close> set;
  \<open>Return e\<close>: the function returned \<^verbatim>\<open>c.close(e)\<close> from inside the loop.
\<close>

datatype flow = Next | Complete | Return "error option"

definition copy_iter :: "Response \<Rightarrow> world \<Rightarrow> flow \<times> Response \<times> world" where
  "copy_iter c w =
     (let ((buf, err), w1) = Body_Read w
      in if err \<noteq> None \<and> err \<noteq> Some EOF then
           (let (e, c', w') = close err c w1 in (Return e, c', w'))
         else
           (let (werr, w2) = writer_Write buf w1
            in if werr \<noteq> None then
                 (let (e, c', w') = close werr c w2 in (Return e, c', w'))
               else
                 (let c1 = c\<lparr>bytesTransferred := bytesTransferred c + of_nat (length buf)\<rparr>
                  in if err = Some EOF then (Complete, c1, writer_Close w2)
                     else (Next, c1, w2))))"

partial_function (option) copy_loop :: "Response \<Rightarrow> world \<Rightarrow> (flow \<times> Response \<times> world) option" where
  "copy_loop c w =
     (case copy_iter c w of
        (Next, c', w') \<Rightarrow> copy_loop c' w'
      | (Complete, c', w') \<Rightarrow> Some (Complete, c', w')
      | (Return e, c', w') \<Rightarrow> Some (Return e, c', w'))"

declare copy_loop.simps [code]

section \<open>Checksum validation and \<^verbatim>\<open>copy\<close>\<close>

text \<open>
  Lines 133 to 159: what follows the loop once \<^verbatim>\<open>complete\<close> is true. The deferred
  \<^verbatim>\<open>f.Close()\<close> runs on every path that opened the file. The error that
  \<^verbatim>\<open>os.Remove\<close> returns is discarded, as in the source.
\<close>

definition validate :: "Response \<Rightarrow> world \<Rightarrow> error option \<times> Response \<times> world" where
  "validate c w =
     (case (Hash (Request c), Checksum (Request c)) of
        (Some h, Some cs) \<Rightarrow>
          (case os_Open (Filename c) w of
             (Inl err, w1) \<Rightarrow> close (Some err) c w1
           | (Inr f, w1) \<Rightarrow>
               (case io_Copy h f w1 of
                  (Some err, h') \<Rightarrow>
                    (let c1 = c\<lparr>Request := (Request c)\<lparr>Hash := Some h'\<rparr>\<rparr>;
                         (e, c', w') = close (Some err) c1 w1
                     in (e, c', file_Close w'))
                | (None, h') \<Rightarrow>
                    (let c1 = c\<lparr>Request := (Request c)\<lparr>Hash := Some h'\<rparr>\<rparr>;
                         sum = hash_Sum h'
                     in if sum \<noteq> cs then
                          (let w2 = (if RemoveOnError (Request c1)
                                     then snd (os_Remove (Filename c1) (file_Close w1))
                                     else w1);
                               (e, c', w') =
                                 close (Some (newGrabError errChecksumMismatch
                                                ''Checksum mismatch: %v'' [EncodeToString sum])) c1 w2
                           in (e, c', file_Close w'))
                        else
                          (let (e, c', w') = close None c1 w1 in (e, c', file_Close w')))))
      | _ \<Rightarrow> close None c w)"

text \<open>
  \<^verbatim>\<open>copy\<close>. The \<^verbatim>\<open>defer c.writer.Close()\<close> of its first line takes the method
  value of the interface held by \<^verbatim>\<open>c.writer\<close>: on a nil interface that panics at
  once; otherwise the call is made on that same writer when the function returns, also
  after \<^verbatim>\<open>close\<close> has set the field to nil. The result is \<open>None\<close> when the loop never
  ends.
\<close>

datatype outcome = Panic | Returned "error option"

definition copy :: "Response \<Rightarrow> world \<Rightarrow> (outcome \<times> Response \<times> world) option" where
  "copy c w =
     (case writer c of
        None \<Rightarrow> Some (Panic, c, w)
      | Some wr \<Rightarrow>
          (case copy_loop c w of
             None \<Rightarrow> None
           | Some (Return e, c', w') \<Rightarrow> Some (Returned e, c', writer_Close w')
           | Some (_, c', w') \<Rightarrow>
               (let (e, c'', w'') = validate c' w' in Some (Returned e, c'', writer_Close w''))))"

section \<open>The command line (package main)\<close>

text \<open>
  \<^verbatim>\<open>main\<close> after \<^verbatim>\<open>flag.Parse()\<close>: \<open>arg0\<close> is \<^verbatim>\<open>os.Args[0]\<close>, \<open>dest\<close> the value of
  the \<^verbatim>\<open>-dest\<close> flag and \<open>args\<close> what \<^verbatim>\<open>flag.Args()\<close> returns, the positional
  arguments. \<^verbatim>\<open>grabui.GetBatch\<close> is not part of the sources and is a parameter: it
  returns an error text, or the error of every response that arrives on the channel.
  The result is what the process wrote to standard error, the code it exited with, and
  the destination and URLs it handed to \<^verbatim>\<open>GetBatch\<close>, if it called it.
\<close>

record cli =
  stderr :: string
  exit_code :: int
  batch :: "(string \<times> string list) option"

definition main :: "string \<Rightarrow> string \<Rightarrow> string list \<Rightarrow>
    (string \<Rightarrow> string list \<Rightarrow> string + error option list) \<Rightarrow> cli" where
  "main arg0 dest args GetBatch =
     (if length args < 1 then
        \<lparr>stderr = ''usage: '' @ arg0 @ '' url...'' @ [CHR 0x0A], exit_code = 1, batch = None\<rparr>
      else
        (let urls = drop 1 args
         in case GetBatch dest urls of
              Inl err \<Rightarrow> \<lparr>stderr = err, exit_code = 1, batch = Some (dest, urls)\<rparr>
            | Inr respch \<Rightarrow>
                \<lparr>stderr = [], exit_code = int (length (filter (\<lambda>err. err \<noteq> None) respch)),
                 batch = Some (dest, urls)\<rparr>))"

text \<open>A \<^verbatim>\<open>GetBatch\<close> whose downloads all succeed.\<close>

definition ex_GetBatch :: "string \<Rightarrow> string list \<Rightarrow> string + error option list" where
  "ex_GetBatch dest urls = Inr (map (\<lambda>u. None) urls)"

section \<open>Notions the properties are stated with\<close>

text \<open>
  The \<open>k\<close>-th read as the loop sees it: the bytes that reach the buffer and the error.
  \<open>goes_on w i\<close>: the \<open>i\<close>-th pass from \<open>w\<close> on reads without an error and its write
  succeeds. \<open>after_c k c w\<close> and \<open>after_w k w\<close>: response and world after \<open>k\<close> such
  passes. \<open>notified rq\<close>: the channels a finalization sends on.
\<close>

definition rd_buf :: "world \<Rightarrow> nat \<Rightarrow> byte list" where
  "rd_buf w k = take 4096 (fst (body w k))"

definition rd_err :: "world \<Rightarrow> nat \<Rightarrow> error option" where
  "rd_err w k = snd (body w k)"

definition after_c :: "nat \<Rightarrow> Response \<Rightarrow> world \<Rightarrow> Response" where
  "after_c k c w =
     c\<lparr>bytesTransferred :=
         bytesTransferred c + of_nat (\<Sum>i<k. length (rd_buf w (nread w + i)))\<rparr>"

definition after_w :: "nat \<Rightarrow> world \<Rightarrow> world" where
  "after_w k w =
     w\<lparr>nread := nread w + k, nwrite := nwrite w + k,
       written := written w @ concat (map (\<lambda>i. rd_buf w (nread w + i)) [0..<k])\<rparr>"

definition goes_on :: "world \<Rightarrow> nat \<Rightarrow> bool" where
  "goes_on w i \<longleftrightarrow> rd_err w (nread w + i) = None \<and> wscript w (nwrite w + i) = None"

definition notified :: "Request \<Rightarrow> chan list" where
  "notified rq =
     (case notifyOnCloseInternal rq of None \<Rightarrow> [] | Some ch \<Rightarrow> [ch]) @
     (case NotifyOnClose rq of None \<Rightarrow> [] | Some ch \<Rightarrow> [ch])"

section \<open>Example inputs\<close>

text \<open>
  A body of three reads (three bytes, an empty read without error, a last byte with
  end of stream), a writer that takes everything, and one file on disk.
\<close>

definition ex_w :: world where
  "ex_w =
     \<lparr>body = (\<lambda>k. if k = 0 then ([1, 2, 3], None)
                   else if k = 1 then ([], None) else ([4], Some EOF)),
      nread = 0, wscript = (\<lambda>k. None), nwrite = 0, written = [], wclosed = 0,
      fs = [''f'' \<mapsto> [1, 2, 3, 4]], open_fault = None, read_fault = None,
      remove_fault = None,
      nopen = 0, fclosed = 0, now = 100, sent = []\<rparr>"

definition ex_rq :: Request where
  "ex_rq =
     \<lparr>Hash = None, Checksum = None, RemoveOnError = False,
      notifyOnCloseInternal = Some 7, NotifyOnClose = None\<rparr>"

definition ex_c :: Response where
  "ex_c =
     \<lparr>Request = ex_rq, Filename = ''f'', Size = 4, Error = None, Start = 0, End = 0,
      DidResume = False, writer = Some 0, bytesTransferred = 0, doneFlag = 0\<rparr>"

text \<open>
  Variations: a writer that fails on its second call after taking one byte (the body
  would end with its third read), a body whose
  second read delivers two bytes together with an error, a body of empty reads without
  end, a world in which the file cannot be removed, and requests that ask for a checksum (a toy digest: the sum of the bytes and
  their number), with and without removal of the file on error.
\<close>

definition ex_w_wfail :: world where
  "ex_w_wfail =
     ex_w\<lparr>body := (\<lambda>k. if k = 0 then ([1, 2, 3], None)
                       else if k = 1 then ([4, 5], None) else ([], Some EOF)),
          wscript := (\<lambda>k. if k = 1 then Some (1, IOError ''no space left on device'') else None)\<rparr>"

definition ex_w_rfail :: world where
  "ex_w_rfail =
     ex_w\<lparr>body := (\<lambda>k. if k = 0 then ([1, 2, 3], None)
                       else ([9, 9], Some (IOError ''connection reset by peer'')))\<rparr>"

definition ex_w_idle :: world where
  "ex_w_idle = ex_w\<lparr>body := (\<lambda>k. ([], None))\<rparr>"

definition ex_w_locked :: world where
  "ex_w_locked = ex_w\<lparr>remove_fault := Some (IOError ''remove f: permission denied'')\<rparr>"

definition ex_hash :: hash where
  "ex_hash = \<lparr>digest = (\<lambda>bs. [sum_list bs, of_nat (length bs)]), absorbed = []\<rparr>"

definition ex_c_sum :: Response where
  "ex_c_sum = ex_c\<lparr>Request := ex_rq\<lparr>Hash := Some ex_hash, Checksum := Some [0, 0],
                                      RemoveOnError := True\<rparr>\<rparr>"

definition ex_c_keep :: Response where
  "ex_c_keep = ex_c\<lparr>Request := ex_rq\<lparr>Hash := Some ex_hash, Checksum := Some [0, 0]\<rparr>\<rparr>"

text \<open>
  A response whose counters are beyond \<open>2 ^ 53\<close>, and one of an empty file whose
  transfer ended within the tick of the clock it started in.
\<close>

definition ex_c_huge :: Response where
  "ex_c_huge = ex_c\<lparr>Size := 2 ^ 53, bytesTransferred := 2 ^ 53 + 1\<rparr>"

definition ex_c_empty :: Response where
  "ex_c_empty = ex_c\<lparr>Start := 100, End := 100, doneFlag := 1\<rparr>"

section \<open>Facts about one pass and about the loop\<close>

lemma close_eq:
  "close err c w =
     (err,
      c\<lparr>writer := None, Error := err, End := now w, doneFlag := doneFlag c + 1\<rparr>,
      w\<lparr>wclosed := (if writer c \<noteq> None then wclosed w + 1 else wclosed w),
        sent := sent w @ notified (Request c)\<rparr>)"
  by (cases "writer c"; cases "notifyOnCloseInternal (Request c)"; cases "NotifyOnClose (Request c)")
     (simp_all add: close_def writer_Close_def chan_send_def notified_def)

lemma Body_Read_eq:
  "Body_Read w = ((rd_buf w (nread w), rd_err w (nread w)), w\<lparr>nread := nread w + 1\<rparr>)"
  by (simp add: Body_Read_def rd_buf_def rd_err_def case_prod_beta)

lemma writer_Write_ok:
  "wscript w (nwrite w) = None \<Longrightarrow>
   writer_Write p w = (None, w\<lparr>nwrite := nwrite w + 1, written := written w @ p\<rparr>)"
  by (simp add: writer_Write_def)

lemma writer_Write_fail:
  "wscript w (nwrite w) = Some (m, e) \<Longrightarrow>
   writer_Write p w = (Some e, w\<lparr>nwrite := nwrite w + 1, written := written w @ take m p\<rparr>)"
  by (simp add: writer_Write_def)

lemma copy_iter_fatal:
  assumes "rd_err w (nread w) = Some e" "e \<noteq> EOF"
  shows "copy_iter c w =
    (Return (Some e),
     c\<lparr>writer := None, Error := Some e, End := now w, doneFlag := doneFlag c + 1\<rparr>,
     w\<lparr>nread := nread w + 1,
       wclosed := (if writer c \<noteq> None then wclosed w + 1 else wclosed w),
       sent := sent w @ notified (Request c)\<rparr>)"
  using assms
  by (simp add: copy_iter_def Body_Read_eq close_eq)

lemma copy_iter_wfail:
  assumes "rd_err w (nread w) = None \<or> rd_err w (nread w) = Some EOF"
    and "wscript w (nwrite w) = Some (m, e)"
  shows "copy_iter c w =
    (Return (Some e),
     c\<lparr>writer := None, Error := Some e, End := now w, doneFlag := doneFlag c + 1\<rparr>,
     w\<lparr>nread := nread w + 1, nwrite := nwrite w + 1,
       written := written w @ take m (rd_buf w (nread w)),
       wclosed := (if writer c \<noteq> None then wclosed w + 1 else wclosed w),
       sent := sent w @ notified (Request c)\<rparr>)"
  using assms
  by (auto simp add: copy_iter_def Body_Read_eq writer_Write_fail close_eq)

lemma copy_iter_eof:
  assumes "rd_err w (nread w) = Some EOF" and "wscript w (nwrite w) = None"
  shows "copy_iter c w =
    (Complete,
     c\<lparr>bytesTransferred := bytesTransferred c + of_nat (length (rd_buf w (nread w)))\<rparr>,
     w\<lparr>nread := nread w + 1, nwrite := nwrite w + 1,
       written := written w @ rd_buf w (nread w), wclosed := wclosed w + 1\<rparr>)"
  using assms
  by (simp add: copy_iter_def Body_Read_eq writer_Write_ok writer_Close_def)

lemma copy_iter_next:
  assumes "rd_err w (nread w) = None" and "wscript w (nwrite w) = None"
  shows "copy_iter c w =
    (Next,
     c\<lparr>bytesTransferred := bytesTransferred c + of_nat (length (rd_buf w (nread w)))\<rparr>,
     w\<lparr>nread := nread w + 1, nwrite := nwrite w + 1,
       written := written w @ rd_buf w (nread w)\<rparr>)"
  using assms
  by (simp add: copy_iter_def Body_Read_eq writer_Write_ok)

lemma copy_iter_Next_D:
  assumes "copy_iter c w = (Next, c', w')"
  shows "rd_err w (nread w) = None \<and> wscript w (nwrite w) = None"
proof (cases "rd_err w (nread w)")
  case None
  show ?thesis
  proof (cases "wscript w (nwrite w)")
    case N: None
    with None show ?thesis by simp
  next
    case (Some me)
    obtain m e where "me = (m, e)" by (cases me)
    with Some None assms copy_iter_wfail [of w m e c] show ?thesis by simp
  qed
next
  case (Some e)
  show ?thesis
  proof (cases "e = EOF")
    case True
    show ?thesis
    proof (cases "wscript w (nwrite w)")
      case None
      with Some True assms copy_iter_eof [of w c] show ?thesis by simp
    next
      case S: (Some me)
      obtain m e' where "me = (m, e')" by (cases me)
      with S Some True assms copy_iter_wfail [of w m e' c] show ?thesis by simp
    qed
  next
    case False
    with Some assms copy_iter_fatal [of w e c] show ?thesis by simp
  qed
qed

lemma copy_loop_next:
  assumes "rd_err w (nread w) = None" and "wscript w (nwrite w) = None"
  shows "copy_loop c w = copy_loop
     (c\<lparr>bytesTransferred := bytesTransferred c + of_nat (length (rd_buf w (nread w)))\<rparr>)
     (w\<lparr>nread := nread w + 1, nwrite := nwrite w + 1,
       written := written w @ rd_buf w (nread w)\<rparr>)"
  by (subst copy_loop.simps) (simp add: copy_iter_next [OF assms])

lemma rd_after_w [simp]:
  "rd_err (after_w k w) = rd_err w" "rd_buf (after_w k w) = rd_buf w"
  by (simp_all add: after_w_def rd_err_def rd_buf_def fun_eq_iff)

lemma after_w_fields [simp]:
  "nread (after_w k w) = nread w + k" "nwrite (after_w k w) = nwrite w + k"
  "wscript (after_w k w) = wscript w" "body (after_w k w) = body w"
  by (simp_all add: after_w_def)

lemma copy_loop_prefix:
  assumes "\<forall>i<k. goes_on w i"
  shows "copy_loop c w = copy_loop (after_c k c w) (after_w k w)"
  using assms unfolding goes_on_def
proof (induction k)
  case 0
  show ?case by (simp add: after_c_def after_w_def)
next
  case (Suc k)
  then have IH: "copy_loop c w = copy_loop (after_c k c w) (after_w k w)" by simp
  have r: "rd_err (after_w k w) (nread (after_w k w)) = None"
    using Suc.prems by simp
  have s: "wscript (after_w k w) (nwrite (after_w k w)) = None"
    using Suc.prems by simp
  have "copy_loop (after_c k c w) (after_w k w) = copy_loop (after_c (Suc k) c w) (after_w (Suc k) w)"
    by (subst copy_loop_next [OF r s]) (simp add: after_c_def after_w_def add.assoc rd_buf_def)
  with IH show ?case by simp
qed

lemma copy_iter_not_Next:
  assumes "\<not> goes_on w 0"
  shows "fst (copy_iter c w) \<noteq> Next"
proof
  assume "fst (copy_iter c w) = Next"
  then obtain c' w' where "copy_iter c w = (Next, c', w')"
    by (cases "copy_iter c w") simp
  from copy_iter_Next_D [OF this] assms show False by (simp add: goes_on_def)
qed

lemma copy_loop_stops:
  assumes "\<not> goes_on w 0"
  shows "copy_loop c w = Some (copy_iter c w)"
proof -
  obtain f c' w' where eq: "copy_iter c w = (f, c', w')" by (cases "copy_iter c w")
  with copy_iter_not_Next [OF assms, of c] have "f \<noteq> Next" by simp
  with eq show ?thesis by (subst copy_loop.simps) (cases f; simp)
qed

lemma goes_on_after_w: "goes_on (after_w k w) i = goes_on w (k + i)"
  by (simp add: goes_on_def add.assoc)

lemma copy_loop_at:
  assumes "\<forall>i<k. goes_on w i" and "\<not> goes_on w k"
  shows "copy_loop c w = Some (copy_iter (after_c k c w) (after_w k w))"
proof -
  have "\<not> goes_on (after_w k w) 0" using assms(2) by (simp add: goes_on_after_w)
  from copy_loop_stops [OF this] copy_loop_prefix [OF assms(1)] show ?thesis by simp
qed

lemma copy_loop_Some_stop:
  assumes "copy_loop c w = Some y"
  shows "\<exists>k. \<not> goes_on w k"
  using assms
proof (induction rule: copy_loop.raw_induct [rotated 1, consumes 1, case_names step])
  case (step loop c w y)
  show ?case
  proof (cases "goes_on w 0")
    case False
    then show ?thesis by blast
  next
    case True
    then have r: "rd_err w (nread w) = None" and s: "wscript w (nwrite w) = None"
      by (simp_all add: goes_on_def)
    let ?w1 = "w\<lparr>nread := nread w + 1, nwrite := nwrite w + 1,
                 written := written w @ rd_buf w (nread w)\<rparr>"
    from step(2) copy_iter_next [OF r s, of c]
    obtain c1 where "loop c1 ?w1 = Some y" by simp
    from step(1) [OF this] obtain k where "\<not> goes_on ?w1 k" by blast
    then have "\<not> goes_on w (Suc k)" by (simp add: goes_on_def rd_err_def)
    then show ?thesis by blast
  qed
qed

lemma copy_loop_Some_D:
  assumes "copy_loop c w = Some y"
  shows "\<exists>k. (\<forall>i<k. goes_on w i) \<and> \<not> goes_on w k \<and>
             y = copy_iter (after_c k c w) (after_w k w)"
proof -
  from copy_loop_Some_stop [OF assms] obtain n where n: "\<not> goes_on w n" by blast
  define k where "k = (LEAST j. \<not> goes_on w j)"
  have k: "\<not> goes_on w k" unfolding k_def using n by (rule LeastI)
  have lt: "\<forall>i<k. goes_on w i" unfolding k_def using not_less_Least by blast
  from copy_loop_at [OF lt k, of c] assms have "y = copy_iter (after_c k c w) (after_w k w)"
    by simp
  with k lt show ?thesis by blast
qed

lemma copy_loop_diverges:
  assumes "\<forall>i. goes_on w i"
  shows "copy_loop c w = None"
proof (cases "copy_loop c w")
  case None
  then show ?thesis .
next
  case (Some y)
  from copy_loop_Some_stop [OF this] assms show ?thesis by blast
qed

lemma copy_loop_returns:
  assumes "rd_err w (nread w + n) \<noteq> None"
  shows "\<exists>y. copy_loop c w = Some y"
proof -
  have n: "\<not> goes_on w n" using assms by (simp add: goes_on_def)
  define k where "k = (LEAST j. \<not> goes_on w j)"
  have k: "\<not> goes_on w k" unfolding k_def using n by (rule LeastI)
  have lt: "\<forall>i<k. goes_on w i" unfolding k_def using not_less_Least by blast
  from copy_loop_at [OF lt k, of c] show ?thesis by blast
qed

lemma iter_cases [case_names fatal wfail eof "next"]:
  obtains e where "rd_err w (nread w) = Some e" "e \<noteq> EOF"
  | m e where "rd_err w (nread w) = None \<or> rd_err w (nread w) = Some EOF"
      "wscript w (nwrite w) = Some (m, e)"
  | "rd_err w (nread w) = Some EOF" "wscript w (nwrite w) = None"
  | "rd_err w (nread w) = None" "wscript w (nwrite w) = None"
proof (cases "rd_err w (nread w)")
  case None
  then show ?thesis using that(2,4) by (cases "wscript w (nwrite w)") auto
next
  case (Some e)
  then show ?thesis using that(1,2,3) by (cases "wscript w (nwrite w)"; cases "e = EOF") auto
qed

lemma notified_Hash [simp]: "notified (rq\<lparr>Hash := h\<rparr>) = notified rq"
  by (simp add: notified_def)

lemma os_Remove_eq:
  "snd (os_Remove name w) =
     w\<lparr>fs := (if remove_fault w = None then (fs w)(name := None) else fs w)\<rparr>"
proof (cases "remove_fault w")
  case (Some e)
  then show ?thesis by (simp add: os_Remove_def)
next
  case None
  show ?thesis
  proof (cases "fs w name")
    case N: None
    then have "(fs w)(name := None) = fs w" by (simp add: fun_upd_idem)
    with None N show ?thesis by (simp add: os_Remove_def)
  next
    case (Some content)
    with None show ?thesis by (simp add: os_Remove_def)
  qed
qed

lemma validate_skip:
  assumes "Hash (Request c) = None \<or> Checksum (Request c) = None"
  shows "validate c w = close None c w"
  using assms by (auto simp add: validate_def split: option.splits)

lemma validate_frame:
  assumes "validate c w = (e, c', w')"
  shows "Error c' = e \<and> doneFlag c' = doneFlag c + 1 \<and> writer c' = None \<and>
         sent w' = sent w @ notified (Request c) \<and>
         wclosed w' = (if writer c \<noteq> None then wclosed w + 1 else wclosed w) \<and>
         bytesTransferred c' = bytesTransferred c \<and> Filename c' = Filename c"
  using assms
  by (auto simp add: validate_def close_eq os_Open_def io_Copy_def file_Close_def os_Remove_eq
      Let_def split: option.splits sum.splits prod.splits if_splits)

lemma copy_iter_frame:
  assumes "copy_iter c w = (f, c', w')"
  shows "(case f of
            Next \<Rightarrow> writer c' = writer c \<and> doneFlag c' = doneFlag c \<and> sent w' = sent w \<and>
                    wclosed w' = wclosed w \<and> Error c' = Error c
          | Complete \<Rightarrow> writer c' = writer c \<and> doneFlag c' = doneFlag c \<and> sent w' = sent w \<and>
                    wclosed w' = wclosed w + 1 \<and> Error c' = Error c
          | Return e \<Rightarrow> e \<noteq> None \<and> Error c' = e \<and> doneFlag c' = doneFlag c + 1 \<and>
                    writer c' = None \<and> sent w' = sent w @ notified (Request c) \<and>
                    wclosed w' = (if writer c \<noteq> None then wclosed w + 1 else wclosed w) \<and>
                    bytesTransferred c' = bytesTransferred c) \<and>
         Request c' = Request c \<and> Filename c' = Filename c \<and> fs w' = fs w \<and>
         open_fault w' = open_fault w \<and> read_fault w' = read_fault w \<and>
         remove_fault w' = remove_fault w \<and> nopen w' = nopen w \<and>
         fclosed w' = fclosed w \<and> now w' = now w \<and> nread w' = nread w + 1"
proof (cases w rule: iter_cases)
  case (fatal e)
  from copy_iter_fatal [OF this, of c] assms show ?thesis by auto
next
  case (wfail m e)
  from copy_iter_wfail [OF this, of c] assms show ?thesis by auto
next
  case eof
  from copy_iter_eof [OF this, of c] assms show ?thesis by auto
next
  case "next"
  from copy_iter_next [OF this, of c] assms show ?thesis by auto
qed

lemma after_frame [simp]:
  "writer (after_c k c w) = writer c" "doneFlag (after_c k c w) = doneFlag c"
  "Error (after_c k c w) = Error c" "Request (after_c k c w) = Request c"
  "Filename (after_c k c w) = Filename c"
  "sent (after_w k w) = sent w" "wclosed (after_w k w) = wclosed w" "fs (after_w k w) = fs w"
  "open_fault (after_w k w) = open_fault w" "read_fault (after_w k w) = read_fault w"
  "remove_fault (after_w k w) = remove_fault w"
  "nopen (after_w k w) = nopen w" "fclosed (after_w k w) = fclosed w" "now (after_w k w) = now w"
  by (simp_all add: after_c_def after_w_def)

lemma copy_loop_frame:
  assumes "copy_loop c w = Some (f, c', w')"
  shows "(case f of
            Next \<Rightarrow> False
          | Complete \<Rightarrow> writer c' = writer c \<and> doneFlag c' = doneFlag c \<and> sent w' = sent w \<and>
                    wclosed w' = wclosed w + 1 \<and> Error c' = Error c
          | Return e \<Rightarrow> e \<noteq> None \<and> Error c' = e \<and> doneFlag c' = doneFlag c + 1 \<and>
                    writer c' = None \<and> sent w' = sent w @ notified (Request c) \<and>
                    wclosed w' = (if writer c \<noteq> None then wclosed w + 1 else wclosed w)) \<and>
         Request c' = Request c \<and> Filename c' = Filename c \<and> fs w' = fs w \<and>
         open_fault w' = open_fault w \<and> read_fault w' = read_fault w \<and>
         remove_fault w' = remove_fault w \<and> nopen w' = nopen w \<and>
         fclosed w' = fclosed w \<and> now w' = now w"
proof -
  from copy_loop_Some_D [OF assms] obtain k where
    k: "\<not> goes_on w k" and eq: "copy_iter (after_c k c w) (after_w k w) = (f, c', w')"
    by auto
  have "\<not> goes_on (after_w k w) 0" using k by (simp add: goes_on_after_w)
  from copy_iter_not_Next [OF this, of "after_c k c w"] eq have "f \<noteq> Next" by simp
  with copy_iter_frame [OF eq] show ?thesis by (cases f) simp_all
qed

lemma copy_Return:
  assumes "writer c \<noteq> None" and "copy_loop c w = Some (Return e, c', w')"
  shows "copy c w = Some (Returned e, c', writer_Close w')"
  using assms by (auto simp add: copy_def)

lemma copy_Complete:
  assumes "writer c \<noteq> None" and "copy_loop c w = Some (Complete, c', w')"
    and "validate c' w' = (e, c'', w'')"
  shows "copy c w = Some (Returned e, c'', writer_Close w'')"
  using assms by (auto simp add: copy_def)

lemma copy_loop_eof:
  assumes "\<forall>i<k. rd_err w (nread w + i) = None" and "rd_err w (nread w + k) = Some EOF"
    and "\<forall>i\<le>k. wscript w (nwrite w + i) = None"
  shows "\<exists>c' w'. copy_loop c w = Some (Complete, c', w')"
proof -
  from assms have pre: "\<forall>i<k. goes_on w i" and stop: "\<not> goes_on w k"
    and r: "rd_err (after_w k w) (nread (after_w k w)) = Some EOF"
    and s: "wscript (after_w k w) (nwrite (after_w k w)) = None"
    by (simp_all add: goes_on_def)
  from copy_loop_at [OF pre stop, of c] copy_iter_eof [OF r s, of "after_c k c w"]
  show ?thesis by simp
qed

lemma copy_loop_Complete_D:
  assumes "copy_loop c w = Some (Complete, c', w')"
  shows "\<exists>k. nread w' = nread w + k + 1 \<and> rd_err w (nread w + k) = Some EOF \<and>
             (\<forall>i<k. rd_err w (nread w + i) = None)"
proof -
  from copy_loop_Some_D [OF assms] obtain k where
    pre: "\<forall>i<k. goes_on w i" and stop: "\<not> goes_on w k"
    and eq: "copy_iter (after_c k c w) (after_w k w) = (Complete, c', w')"
    by auto
  have "nread w' = nread w + k + 1 \<and> rd_err w (nread w + k) = Some EOF"
  proof (cases "after_w k w" rule: iter_cases)
    case (fatal e)
    from copy_iter_fatal [OF this, of "after_c k c w"] eq show ?thesis by simp
  next
    case (wfail m e)
    from copy_iter_wfail [OF this, of "after_c k c w"] eq show ?thesis by simp
  next
    case eof
    from copy_iter_eof [OF this, of "after_c k c w"] eq eof(1) show ?thesis by auto
  next
    case "next"
    with stop show ?thesis by (simp add: goes_on_def)
  qed
  moreover from pre have "\<forall>i<k. rd_err w (nread w + i) = None" by (simp add: goes_on_def)
  ultimately show ?thesis by blast
qed

lemma copy_loop_Return_D:
  assumes "copy_loop c w = Some (Return r, c', w')"
  shows "\<exists>k. nread w' = nread w + k + 1 \<and> (\<forall>i<k. rd_err w (nread w + i) = None) \<and>
             (rd_err w (nread w + k) = r \<and> r \<noteq> None \<and> r \<noteq> Some EOF \<or>
              (\<exists>m e. wscript w (nwrite w + k) = Some (m, e) \<and> r = Some e))"
proof -
  from copy_loop_Some_D [OF assms] obtain k where
    pre: "\<forall>i<k. goes_on w i" and stop: "\<not> goes_on w k"
    and eq: "copy_iter (after_c k c w) (after_w k w) = (Return r, c', w')"
    by auto
  have "nread w' = nread w + k + 1 \<and>
        (rd_err w (nread w + k) = r \<and> r \<noteq> None \<and> r \<noteq> Some EOF \<or>
         (\<exists>m e. wscript w (nwrite w + k) = Some (m, e) \<and> r = Some e))"
  proof (cases "after_w k w" rule: iter_cases)
    case (fatal e)
    from copy_iter_fatal [OF this, of "after_c k c w"] eq fatal show ?thesis by auto
  next
    case (wfail m e)
    from copy_iter_wfail [OF this, of "after_c k c w"] eq wfail(2) show ?thesis by auto
  next
    case eof
    from copy_iter_eof [OF this, of "after_c k c w"] eq show ?thesis by simp
  next
    case "next"
    with stop show ?thesis by (simp add: goes_on_def)
  qed
  moreover from pre have "\<forall>i<k. rd_err w (nread w + i) = None" by (simp add: goes_on_def)
  ultimately show ?thesis by blast
qed

lemma validate_mismatch:
  assumes "Hash (Request c) = Some h" and "Checksum (Request c) = Some cs"
    and "open_fault w = None" and "fs w (Filename c) = Some content" and "read_fault w = None"
    and "digest h (absorbed h @ content) \<noteq> cs"
  shows "\<exists>c' w'. validate c w =
           (Some (newGrabError errChecksumMismatch
              ''Checksum mismatch: %v'' [EncodeToString (digest h (absorbed h @ content))]),
            c', w') \<and>
         fs w' = (if RemoveOnError (Request c) \<and> remove_fault w = None
                  then (fs w)(Filename c := None) else fs w) \<and>
         nopen w' = nopen w + 1"
  using assms
  by (simp add: validate_def os_Open_def io_Copy_def hash_Write_def hash_Sum_def close_eq
      file_Close_def os_Remove_eq Let_def)

lemma validate_skip_frame:
  assumes "Hash (Request c) = None \<or> Checksum (Request c) = None"
  shows "\<exists>c' w'. validate c w = (None, c', w') \<and> fs w' = fs w \<and> nopen w' = nopen w \<and>
           Request c' = Request c"
  using validate_skip [OF assms, of w] by (simp add: close_eq)

lemma validate_nopen:
  assumes "validate c w = (e, c', w')" and "Hash (Request c) = Some h"
    and "Checksum (Request c) = Some cs"
  shows "nopen w' = nopen w + 1"
  using assms
  by (auto simp add: validate_def close_eq os_Open_def io_Copy_def file_Close_def os_Remove_eq
      Let_def split: option.splits sum.splits prod.splits if_splits)

lemma copy_mismatch:
  assumes "writer c \<noteq> None" and "copy_loop c w = Some (Complete, c1, w1)"
    and "Hash (Request c) = Some h" and "Checksum (Request c) = Some cs"
    and "open_fault w = None" and "fs w (Filename c) = Some content" and "read_fault w = None"
    and "digest h (absorbed h @ content) \<noteq> cs"
  shows "\<exists>c' w'. copy c w =
           Some (Returned (Some (newGrabError errChecksumMismatch
              ''Checksum mismatch: %v'' [EncodeToString (digest h (absorbed h @ content))])),
            c', w') \<and>
         Error c' = Some (newGrabError errChecksumMismatch
              ''Checksum mismatch: %v'' [EncodeToString (digest h (absorbed h @ content))]) \<and>
         doneFlag c' = doneFlag c + 1 \<and>
         (fs w' (Filename c) = None \<longleftrightarrow>
            RemoveOnError (Request c) \<and> remove_fault w = None) \<and>
         fs w' = (if RemoveOnError (Request c) \<and> remove_fault w = None
                  then (fs w)(Filename c := None) else fs w)"
proof -
  note fr = copy_loop_frame [OF assms(2)]
  from fr assms have "Hash (Request c1) = Some h" "Checksum (Request c1) = Some cs"
    "open_fault w1 = None" "fs w1 (Filename c1) = Some content" "read_fault w1 = None"
    by simp_all
  from validate_mismatch [OF this assms(8)] obtain c' w' where
    v: "validate c1 w1 =
           (Some (newGrabError errChecksumMismatch
              ''Checksum mismatch: %v'' [EncodeToString (digest h (absorbed h @ content))]),
            c', w')"
    and f: "fs w' = (if RemoveOnError (Request c1) \<and> remove_fault w1 = None
                     then (fs w1)(Filename c1 := None) else fs w1)"
    by blast
  from validate_frame [OF v] copy_Complete [OF assms(1,2) v] f fr assms(6)
  show ?thesis by (simp add: writer_Close_def)
qed

lemma ex_w_reads:
  "rd_err ex_w 0 = None" "rd_err ex_w 1 = None" "rd_err ex_w 2 = Some EOF"
  "fst (body ex_w 1) = []" "nread ex_w = 0" "nwrite ex_w = 0" "wscript ex_w i = None"
  by (simp_all add: rd_err_def ex_w_def)

lemma ex_w_completes: "\<exists>c' w'. copy_loop c ex_w = Some (Complete, c', w')"
proof (rule copy_loop_eof [of 2])
  show "\<forall>i<2. rd_err ex_w (nread ex_w + i) = None"
    by (simp add: rd_err_def ex_w_def)
  show "rd_err ex_w (nread ex_w + 2) = Some EOF" by (simp add: rd_err_def ex_w_def)
  show "\<forall>i\<le>2. wscript ex_w (nwrite ex_w + i) = None" by (simp add: ex_w_def)
qed

lemma ex_w_locked_completes: "\<exists>c' w'. copy_loop c ex_w_locked = Some (Complete, c', w')"
proof (rule copy_loop_eof [of 2])
  show "\<forall>i<2. rd_err ex_w_locked (nread ex_w_locked + i) = None"
    by (simp add: rd_err_def ex_w_locked_def ex_w_def)
  show "rd_err ex_w_locked (nread ex_w_locked + 2) = Some EOF"
    by (simp add: rd_err_def ex_w_locked_def ex_w_def)
  show "\<forall>i\<le>2. wscript ex_w_locked (nwrite ex_w_locked + i) = None"
    by (simp add: ex_w_locked_def ex_w_def)
qed

lemma EncodeToString_example: "EncodeToString [0xAB, 0x01, 0xff] = ''ab01ff''"
  by (simp add: hextable_def)

section \<open>Finalization happens once\<close>

text \<open>
  C1. Every run of \<^verbatim>\<open>copy\<close> that starts with an open writer and comes to an end,
  through whichever exit (a read error, a write error, an error opening or reading the
  file for the checksum, a checksum mismatch, or success), has called \<^verbatim>\<open>close\<close>
  exactly once: the function returns the error it recorded, \<^verbatim>\<open>doneFlag\<close> has
  gone up by exactly one, the writer field is nil and the writer was closed, and the
  response was sent once on each channel that is set. And the run does come to an end
  whenever some read of the body yields end of stream or an error.
\<close>

theorem copy_finalizes_once:
  assumes "writer c \<noteq> None"
  shows "(copy c w = Some (r, c', w') \<longrightarrow>
            r = Returned (Error c') \<and> doneFlag c' = doneFlag c + 1 \<and> writer c' = None \<and>
            sent w' = sent w @ notified (Request c) \<and> wclosed w < wclosed w') \<and>
         ((\<exists>n. rd_err w (nread w + n) \<noteq> None) \<longrightarrow> (\<exists>y. copy c w = Some y))"
proof (rule conjI [OF impI impI])
  assume "\<exists>n. rd_err w (nread w + n) \<noteq> None"
  then obtain n where "rd_err w (nread w + n) \<noteq> None" by blast
  from copy_loop_returns [OF this, of c] obtain y where "copy_loop c w = Some y" by blast
  with assms show "\<exists>y. copy c w = Some y"
    by (cases y; cases "fst y") (auto simp add: copy_def split: prod.splits)
next
  assume res: "copy c w = Some (r, c', w')"
  from assms obtain h where h: "writer c = Some h" by auto
  from res h obtain f c1 w1 where loop: "copy_loop c w = Some (f, c1, w1)"
    by (cases "copy_loop c w") (auto simp add: copy_def)
  note fr = copy_loop_frame [OF loop]
  show "r = Returned (Error c') \<and> doneFlag c' = doneFlag c + 1 \<and> writer c' = None \<and>
        sent w' = sent w @ notified (Request c) \<and> wclosed w < wclosed w'"
  proof (cases f)
    case Next
    with fr show ?thesis by simp
  next
    case Complete
    with res h loop obtain e w2 where v: "validate c1 w1 = (e, c', w2)"
      and r: "r = Returned e" and w': "w' = writer_Close w2"
      by (auto simp add: copy_def split: prod.splits)
    from validate_frame [OF v] fr Complete r w' h show ?thesis
      by (simp add: writer_Close_def)
  next
    case (Return e)
    with res h loop have "r = Returned e" "c' = c1" "w' = writer_Close w1"
      by (simp_all add: copy_def)
    with fr Return h show ?thesis by (simp add: writer_Close_def)
  qed
qed

theorem copy_finalizes_once_witness:
  "writer ex_c \<noteq> None \<and> (\<exists>n. rd_err ex_w (nread ex_w + n) \<noteq> None) \<and>
   (\<exists>c' w'. copy ex_c ex_w = Some (Returned None, c', w') \<and> Error c' = None \<and>
      doneFlag c' = 1 \<and> writer c' = None \<and> sent w' = [7] \<and> wclosed w' = 3)"
proof -
  have h: "writer ex_c \<noteq> None" by (simp add: ex_c_def)
  have t: "\<exists>n. rd_err ex_w (nread ex_w + n) \<noteq> None"
    by (rule exI [of _ 2]) (simp add: rd_err_def ex_w_def)
  from copy_finalizes_once [OF h, of ex_w] t obtain y where "copy ex_c ex_w = Some y"
    by blast
  then obtain r c' w' where y: "copy ex_c ex_w = Some (r, c', w')" by (cases y) auto
  have ev: "(case copy ex_c ex_w of None \<Rightarrow> False
             | Some (r, c', w') \<Rightarrow> r = Returned None \<and> wclosed w' = 3)"
    by code_simp
  from ev y have r: "r = Returned None" and cl: "wclosed w' = 3" by simp_all
  from copy_finalizes_once [OF h, of ex_w r c' w'] y r
  have "Error c' = None" "doneFlag c' = 1" "writer c' = None" "sent w' = [7]"
    by (simp_all add: ex_c_def ex_w_def ex_rq_def notified_def)
  with h t y r cl show ?thesis by blast
qed

section \<open>Bytes are written before they are counted\<close>

text \<open>
  C2. Take the \<open>k\<close>-th pass of a run whose earlier passes went on (the run then reaches
  the state \<open>after_c k c w\<close>, \<open>after_w k w\<close>), and let its read return bytes without a
  fatal error (no error, or end of stream). If the write takes
  them, the pass ends with exactly these bytes appended to what the writer holds and the
  progress counter advanced by their number, and nothing is finalized in the pass. If
  the write fails, \<^verbatim>\<open>copy\<close> returns that very error at once (no further read or write
  is made), the response is finalized with it, and the counter stays where it was
  before the pass, although the writer may have taken some of the bytes: the counter
  moves only after a write that succeeded.
\<close>

theorem copy_writes_then_counts:
  assumes "\<forall>i<k. goes_on w i"
    and "rd_err w (nread w + k) = None \<or> rd_err w (nread w + k) = Some EOF"
    and "writer c \<noteq> None"
  shows "copy_loop c w = copy_loop (after_c k c w) (after_w k w) \<and>
         (wscript w (nwrite w + k) = None \<longrightarrow>
            (\<exists>f c' w'. copy_iter (after_c k c w) (after_w k w) = (f, c', w') \<and>
               f = (if rd_err w (nread w + k) = Some EOF then Complete else Next) \<and>
               written w' = written (after_w k w) @ rd_buf w (nread w + k) \<and>
               bytesTransferred c' =
                 bytesTransferred (after_c k c w) + of_nat (length (rd_buf w (nread w + k))) \<and>
               doneFlag c' = doneFlag c)) \<and>
         (wscript w (nwrite w + k) = Some (m, e) \<longrightarrow>
            (\<exists>c' w'. copy c w = Some (Returned (Some e), c', w') \<and> Error c' = Some e \<and>
               doneFlag c' = doneFlag c + 1 \<and>
               bytesTransferred c' = bytesTransferred (after_c k c w) \<and>
               written w' = written (after_w k w) @ take m (rd_buf w (nread w + k)) \<and>
               nread w' = nread w + k + 1 \<and> nwrite w' = nwrite w + k + 1))"
proof (rule conjI [OF _ conjI [OF impI impI]])
  show "copy_loop c w = copy_loop (after_c k c w) (after_w k w)"
    using assms(1) by (rule copy_loop_prefix)
next
  assume ok: "wscript w (nwrite w + k) = None"
  from assms(2) show "\<exists>f c' w'. copy_iter (after_c k c w) (after_w k w) = (f, c', w') \<and>
               f = (if rd_err w (nread w + k) = Some EOF then Complete else Next) \<and>
               written w' = written (after_w k w) @ rd_buf w (nread w + k) \<and>
               bytesTransferred c' =
                 bytesTransferred (after_c k c w) + of_nat (length (rd_buf w (nread w + k))) \<and>
               doneFlag c' = doneFlag c"
  proof
    assume r: "rd_err w (nread w + k) = None"
    have "copy_iter (after_c k c w) (after_w k w) =
      (Next,
       (after_c k c w)\<lparr>bytesTransferred := bytesTransferred (after_c k c w) +
          of_nat (length (rd_buf (after_w k w) (nread (after_w k w))))\<rparr>,
       (after_w k w)\<lparr>nread := nread (after_w k w) + 1, nwrite := nwrite (after_w k w) + 1,
          written := written (after_w k w) @ rd_buf (after_w k w) (nread (after_w k w))\<rparr>)"
      using r ok by (intro copy_iter_next) simp_all
    with r show ?thesis by simp
  next
    assume r: "rd_err w (nread w + k) = Some EOF"
    have "copy_iter (after_c k c w) (after_w k w) =
      (Complete,
       (after_c k c w)\<lparr>bytesTransferred := bytesTransferred (after_c k c w) +
          of_nat (length (rd_buf (after_w k w) (nread (after_w k w))))\<rparr>,
       (after_w k w)\<lparr>nread := nread (after_w k w) + 1, nwrite := nwrite (after_w k w) + 1,
          written := written (after_w k w) @ rd_buf (after_w k w) (nread (after_w k w)),
          wclosed := wclosed (after_w k w) + 1\<rparr>)"
      using r ok by (intro copy_iter_eof) simp_all
    with r show ?thesis by simp
  qed
next
  assume bad: "wscript w (nwrite w + k) = Some (m, e)"
  then have stop: "\<not> goes_on w k" by (simp add: goes_on_def)
  have it: "copy_iter (after_c k c w) (after_w k w) =
    (Return (Some e),
     (after_c k c w)\<lparr>writer := None, Error := Some e, End := now (after_w k w),
        doneFlag := doneFlag (after_c k c w) + 1\<rparr>,
     (after_w k w)\<lparr>nread := nread (after_w k w) + 1, nwrite := nwrite (after_w k w) + 1,
        written := written (after_w k w) @ take m (rd_buf (after_w k w) (nread (after_w k w))),
        wclosed := (if writer (after_c k c w) \<noteq> None then wclosed (after_w k w) + 1
                    else wclosed (after_w k w)),
        sent := sent (after_w k w) @ notified (Request (after_c k c w))\<rparr>)"
    using assms(2) bad by (intro copy_iter_wfail) simp_all
  from copy_loop_at [OF assms(1) stop, of c] it copy_Return [OF assms(3)]
  show "\<exists>c' w'. copy c w = Some (Returned (Some e), c', w') \<and> Error c' = Some e \<and>
               doneFlag c' = doneFlag c + 1 \<and>
               bytesTransferred c' = bytesTransferred (after_c k c w) \<and>
               written w' = written (after_w k w) @ take m (rd_buf w (nread w + k)) \<and>
               nread w' = nread w + k + 1 \<and> nwrite w' = nwrite w + k + 1"
    by (simp add: writer_Close_def)
qed

theorem copy_writes_then_counts_witness:
  "goes_on ex_w_wfail 0 \<and> rd_err ex_w_wfail (nread ex_w_wfail + 1) = None \<and>
   writer ex_c \<noteq> None \<and>
   wscript ex_w_wfail (nwrite ex_w_wfail + 1) = Some (1, IOError ''no space left on device'') \<and>
   (\<exists>c' w'. copy ex_c ex_w_wfail =
        Some (Returned (Some (IOError ''no space left on device'')), c', w') \<and>
      Error c' = Some (IOError ''no space left on device'') \<and> doneFlag c' = 1 \<and>
      bytesTransferred c' = 3 \<and> written w' = [1, 2, 3, 4] \<and> nread w' = 2 \<and> nwrite w' = 2) \<and>
   (\<exists>f c' w'. copy_iter ex_c ex_w_wfail = (f, c', w') \<and> f = Next \<and>
      written w' = [1, 2, 3] \<and> bytesTransferred c' = 3 \<and> doneFlag c' = 0)"
proof -
  have g: "goes_on ex_w_wfail 0"
    by (simp add: goes_on_def rd_err_def ex_w_wfail_def ex_w_def)
  then have a1: "\<forall>i<1. goes_on ex_w_wfail i" by simp
  have a0: "\<forall>i<0. goes_on ex_w_wfail i" by simp
  have r1: "rd_err ex_w_wfail (nread ex_w_wfail + 1) = None"
    by (simp add: rd_err_def ex_w_wfail_def ex_w_def)
  have r0: "rd_err ex_w_wfail (nread ex_w_wfail + 0) = None"
    by (simp add: rd_err_def ex_w_wfail_def ex_w_def)
  have h: "writer ex_c \<noteq> None" by (simp add: ex_c_def)
  have s1: "wscript ex_w_wfail (nwrite ex_w_wfail + 1) = Some (1, IOError ''no space left on device'')"
    by (simp add: ex_w_wfail_def ex_w_def)
  have s0: "wscript ex_w_wfail (nwrite ex_w_wfail + 0) = None"
    by (simp add: ex_w_wfail_def ex_w_def)
  have v: "bytesTransferred (after_c 1 ex_c ex_w_wfail) = 3"
    "written (after_w 1 ex_w_wfail) = [1, 2, 3]"
    "rd_buf ex_w_wfail (nread ex_w_wfail + 1) = [4, 5]"
    "rd_buf ex_w_wfail (nread ex_w_wfail + 0) = [1, 2, 3]"
    "nread ex_w_wfail = 0" "nwrite ex_w_wfail = 0" "doneFlag ex_c = 0"
    "after_c 0 ex_c ex_w_wfail = ex_c" "after_w 0 ex_w_wfail = ex_w_wfail"
    "bytesTransferred ex_c = 0" "written ex_w_wfail = []"
    by (simp_all add: after_c_def after_w_def rd_buf_def ex_c_def ex_w_wfail_def ex_w_def)
  from copy_writes_then_counts [OF a1 disjI1 [OF r1] h, of 1 "IOError ''no space left on device''"] s1
  have A: "\<exists>c' w'. copy ex_c ex_w_wfail =
        Some (Returned (Some (IOError ''no space left on device'')), c', w') \<and>
      Error c' = Some (IOError ''no space left on device'') \<and> doneFlag c' = 1 \<and>
      bytesTransferred c' = 3 \<and> written w' = [1, 2, 3, 4] \<and> nread w' = 2 \<and> nwrite w' = 2"
    using v by (auto simp add: numeral_2_eq_2)
  from copy_writes_then_counts [OF a0 disjI1 [OF r0] h, of 0 EOF] s0
  have B: "\<exists>f c' w'. copy_iter ex_c ex_w_wfail = (f, c', w') \<and> f = Next \<and>
      written w' = [1, 2, 3] \<and> bytesTransferred c' = 3 \<and> doneFlag c' = 0"
    using v r0 by (auto simp add: numeral_2_eq_2)
  from g r1 h s1 A B show ?thesis by blast
qed

section \<open>When the loop ends\<close>

text \<open>
  C3, as stated, fails: the loop does not end on end of stream or on a read error only.
  Here the third read would yield end of stream, but the second write fails, and the
  loop returns the write's error after two reads that carried no error at all.
\<close>

theorem copy_loop_ends_on_write_failure_counterexample:
  "rd_err ex_w_wfail 0 = None \<and> rd_err ex_w_wfail 1 = None \<and>
   rd_err ex_w_wfail 2 = Some EOF \<and>
   map_option fst (copy_loop ex_c ex_w_wfail) =
     Some (Return (Some (IOError ''no space left on device''))) \<and>
   map_option (\<lambda>(f, c', w'). nread w') (copy_loop ex_c ex_w_wfail) = Some 2"
proof -
  have g: "\<forall>i<1. goes_on ex_w_wfail i"
    by (simp add: goes_on_def rd_err_def ex_w_wfail_def ex_w_def)
  have n: "\<not> goes_on ex_w_wfail 1"
    by (simp add: goes_on_def ex_w_wfail_def ex_w_def)
  have r: "rd_err (after_w 1 ex_w_wfail) (nread (after_w 1 ex_w_wfail)) = None \<or>
      rd_err (after_w 1 ex_w_wfail) (nread (after_w 1 ex_w_wfail)) = Some EOF"
    by (simp add: rd_err_def ex_w_wfail_def ex_w_def)
  have s: "wscript (after_w 1 ex_w_wfail) (nwrite (after_w 1 ex_w_wfail)) =
      Some (1, IOError ''no space left on device'')"
    by (simp add: ex_w_wfail_def ex_w_def)
  have "nread ex_w_wfail = 0" by (simp add: ex_w_wfail_def ex_w_def)
  with copy_loop_at [OF g n, of ex_c] copy_iter_wfail [OF r s, of "after_c 1 ex_c ex_w_wfail"]
  have "map_option fst (copy_loop ex_c ex_w_wfail) =
      Some (Return (Some (IOError ''no space left on device'')))"
    "map_option (\<lambda>(f, c', w'). nread w') (copy_loop ex_c ex_w_wfail) = Some 2"
    by simp_all
  moreover have "rd_err ex_w_wfail 0 = None" "rd_err ex_w_wfail 1 = None"
    "rd_err ex_w_wfail 2 = Some EOF"
    by (simp_all add: rd_err_def ex_w_wfail_def ex_w_def)
  ultimately show ?thesis by simp
qed

text \<open>
  C3, amended. If some read of the body yields end of stream or an error, the loop
  returns. As long as the writes succeed, it runs through every read that has no error
  and stops exactly at the first read that has one: normally (\<open>Complete\<close>, nothing
  finalized) when that is end of stream, and by returning that error, finalized, when it
  is any other error. An empty read without error, once written, only moves the loop on
  to the next read, and a body that never yields an error, with writes that succeed,
  keeps the loop running for ever (the value \<open>None\<close>). Whatever the writes do: a loop that
  ended normally has just read end of stream, after reads without error only; and a
  loop that returned an error has read without error up to its last read, which carried
  that error (not end of stream), unless the error is the one of its last write.
\<close>

theorem copy_loop_ends_at_first_error:
  "((\<exists>n. rd_err w (nread w + n) \<noteq> None) \<longrightarrow> (\<exists>y. copy_loop c w = Some y)) \<and>
   ((\<forall>i<k. rd_err w (nread w + i) = None) \<and> rd_err w (nread w + k) = Some e \<and>
    (\<forall>i\<le>k. wscript w (nwrite w + i) = None) \<longrightarrow>
      (\<exists>c' w'. copy_loop c w = Some (if e = EOF then Complete else Return (Some e), c', w') \<and>
         nread w' = nread w + k + 1 \<and>
         (if e = EOF
          then doneFlag c' = doneFlag c \<and> Error c' = Error c \<and>
               bytesTransferred c' = bytesTransferred (after_c (Suc k) c w)
          else doneFlag c' = doneFlag c + 1 \<and> Error c' = Some e \<and>
               bytesTransferred c' = bytesTransferred (after_c k c w)))) \<and>
   (fst (body w (nread w)) = [] \<and> rd_err w (nread w) = None \<and> wscript w (nwrite w) = None \<longrightarrow>
      copy_loop c w = copy_loop c (w\<lparr>nread := nread w + 1, nwrite := nwrite w + 1\<rparr>)) \<and>
   ((\<forall>i. goes_on w i) \<longrightarrow> copy_loop c w = None) \<and>
   (copy_loop c w = Some (Complete, c', w') \<longrightarrow>
      (\<exists>j. nread w' = nread w + j + 1 \<and> rd_err w (nread w + j) = Some EOF \<and>
           (\<forall>i<j. rd_err w (nread w + i) = None))) \<and>
   (copy_loop c w = Some (Return r, c', w') \<longrightarrow>
      (\<exists>j. nread w' = nread w + j + 1 \<and> (\<forall>i<j. rd_err w (nread w + i) = None) \<and>
           (rd_err w (nread w + j) = r \<and> r \<noteq> None \<and> r \<noteq> Some EOF \<or>
            (\<exists>m e. wscript w (nwrite w + j) = Some (m, e) \<and> r = Some e))))"
proof (intro conjI impI)
  assume "copy_loop c w = Some (Complete, c', w')"
  then show "\<exists>j. nread w' = nread w + j + 1 \<and> rd_err w (nread w + j) = Some EOF \<and>
           (\<forall>i<j. rd_err w (nread w + i) = None)"
    by (rule copy_loop_Complete_D)
next
  assume "copy_loop c w = Some (Return r, c', w')"
  then show "\<exists>j. nread w' = nread w + j + 1 \<and> (\<forall>i<j. rd_err w (nread w + i) = None) \<and>
           (rd_err w (nread w + j) = r \<and> r \<noteq> None \<and> r \<noteq> Some EOF \<or>
            (\<exists>m e. wscript w (nwrite w + j) = Some (m, e) \<and> r = Some e))"
    by (rule copy_loop_Return_D)
next
  assume "\<exists>n. rd_err w (nread w + n) \<noteq> None"
  then obtain n where "rd_err w (nread w + n) \<noteq> None" by blast
  from copy_loop_returns [OF this] show "\<exists>y. copy_loop c w = Some y" .
next
  assume "\<forall>i. goes_on w i"
  from copy_loop_diverges [OF this] show "copy_loop c w = None" .
next
  assume a: "fst (body w (nread w)) = [] \<and> rd_err w (nread w) = None \<and> wscript w (nwrite w) = None"
  then have "rd_buf w (nread w) = []" by (simp add: rd_buf_def)
  with a copy_loop_next [of w c]
  show "copy_loop c w = copy_loop c (w\<lparr>nread := nread w + 1, nwrite := nwrite w + 1\<rparr>)"
    by simp
next
  assume a: "(\<forall>i<k. rd_err w (nread w + i) = None) \<and> rd_err w (nread w + k) = Some e \<and>
    (\<forall>i\<le>k. wscript w (nwrite w + i) = None)"
  then have pre: "\<forall>i<k. goes_on w i" and stop: "\<not> goes_on w k"
    and r: "rd_err (after_w k w) (nread (after_w k w)) = Some e"
    and s: "wscript (after_w k w) (nwrite (after_w k w)) = None"
    by (simp_all add: goes_on_def)
  note at = copy_loop_at [OF pre stop, of c]
  show "\<exists>c' w'. copy_loop c w = Some (if e = EOF then Complete else Return (Some e), c', w') \<and>
         nread w' = nread w + k + 1 \<and>
         (if e = EOF
          then doneFlag c' = doneFlag c \<and> Error c' = Error c \<and>
               bytesTransferred c' = bytesTransferred (after_c (Suc k) c w)
          else doneFlag c' = doneFlag c + 1 \<and> Error c' = Some e \<and>
               bytesTransferred c' = bytesTransferred (after_c k c w))"
  proof (cases "e = EOF")
    case True
    with r have "rd_err (after_w k w) (nread (after_w k w)) = Some EOF" by simp
    from copy_iter_eof [OF this s, of "after_c k c w"] at True show ?thesis
      by (simp add: after_c_def)
  next
    case False
    from copy_iter_fatal [OF r False, of "after_c k c w"] at False show ?thesis
      by simp
  qed
qed

theorem copy_loop_ends_at_first_error_witness:
  "rd_err ex_w 0 = None \<and> rd_err ex_w 1 = None \<and> fst (body ex_w 1) = [] \<and>
   rd_err ex_w 2 = Some EOF \<and>
   (\<exists>y. copy_loop ex_c ex_w = Some y) \<and>
   (\<exists>c' w'. copy_loop ex_c ex_w = Some (Complete, c', w') \<and> nread w' = 3 \<and>
      doneFlag c' = 0 \<and> Error c' = None \<and> bytesTransferred c' = 4) \<and>
   (\<exists>c' w'. copy_loop ex_c ex_w_rfail =
        Some (Return (Some (IOError ''connection reset by peer'')), c', w') \<and> nread w' = 2 \<and>
      doneFlag c' = 1 \<and> Error c' = Some (IOError ''connection reset by peer'') \<and>
      bytesTransferred c' = 3) \<and>
   copy_loop ex_c (ex_w\<lparr>nread := 1, nwrite := 1\<rparr>) =
     copy_loop ex_c (ex_w\<lparr>nread := 2, nwrite := 2\<rparr>) \<and>
   copy_loop ex_c ex_w_idle = None \<and>
   (\<exists>c' w' j. copy_loop ex_c ex_w = Some (Complete, c', w') \<and>
      nread w' = nread ex_w + j + 1 \<and> rd_err ex_w (nread ex_w + j) = Some EOF) \<and>
   (\<exists>r c' w' j. copy_loop ex_c ex_w_rfail = Some (Return r, c', w') \<and>
      nread w' = nread ex_w_rfail + j + 1)"
proof -
  note T = copy_loop_ends_at_first_error
  have A: "\<exists>y. copy_loop ex_c ex_w = Some y"
  proof -
    have "\<exists>n. rd_err ex_w (nread ex_w + n) \<noteq> None"
      by (rule exI [of _ 2]) (simp add: rd_err_def ex_w_def)
    with T [of ex_w ex_c, THEN conjunct1] show ?thesis by blast
  qed
  have B: "\<exists>c' w'. copy_loop ex_c ex_w = Some (Complete, c', w') \<and> nread w' = 3 \<and>
      doneFlag c' = 0 \<and> Error c' = None \<and> bytesTransferred c' = 4"
  proof -
    have h: "(\<forall>i<2. rd_err ex_w (nread ex_w + i) = None) \<and>
        rd_err ex_w (nread ex_w + 2) = Some EOF \<and>
        (\<forall>i\<le>2. wscript ex_w (nwrite ex_w + i) = None)"
      by (simp add: rd_err_def ex_w_def)
    have v: "bytesTransferred (after_c (Suc 2) ex_c ex_w) = 4" "doneFlag ex_c = 0"
      "Error ex_c = None" "nread ex_w + 2 + 1 = 3"
      by (simp_all add: after_c_def rd_buf_def ex_c_def ex_w_def eval_nat_numeral lessThan_Suc)
    from T [of ex_w ex_c 2 EOF, THEN conjunct2, THEN conjunct1, THEN mp, OF h] v
    show ?thesis by auto
  qed
  have C: "\<exists>c' w'. copy_loop ex_c ex_w_rfail =
        Some (Return (Some (IOError ''connection reset by peer'')), c', w') \<and> nread w' = 2 \<and>
      doneFlag c' = 1 \<and> Error c' = Some (IOError ''connection reset by peer'') \<and>
      bytesTransferred c' = 3"
  proof -
    have h: "(\<forall>i<1. rd_err ex_w_rfail (nread ex_w_rfail + i) = None) \<and>
        rd_err ex_w_rfail (nread ex_w_rfail + 1) = Some (IOError ''connection reset by peer'') \<and>
        (\<forall>i\<le>1. wscript ex_w_rfail (nwrite ex_w_rfail + i) = None)"
      by (simp add: rd_err_def ex_w_rfail_def ex_w_def)
    have v: "bytesTransferred (after_c 1 ex_c ex_w_rfail) = 3" "doneFlag ex_c + 1 = 1"
      "nread ex_w_rfail + 1 + 1 = 2"
      by (simp_all add: after_c_def rd_buf_def ex_c_def ex_w_rfail_def ex_w_def)
    from T [of ex_w_rfail ex_c 1 "IOError ''connection reset by peer''",
        THEN conjunct2, THEN conjunct1, THEN mp, OF h] v
    show ?thesis by auto
  qed
  have D: "copy_loop ex_c (ex_w\<lparr>nread := 1, nwrite := 1\<rparr>) =
     copy_loop ex_c (ex_w\<lparr>nread := 2, nwrite := 2\<rparr>)"
  proof -
    let ?w = "ex_w\<lparr>nread := 1, nwrite := 1\<rparr>"
    have h: "fst (body ?w (nread ?w)) = [] \<and> rd_err ?w (nread ?w) = None \<and>
        wscript ?w (nwrite ?w) = None"
      by (simp add: rd_err_def ex_w_def)
    have eq: "?w\<lparr>nread := nread ?w + 1, nwrite := nwrite ?w + 1\<rparr> =
        ex_w\<lparr>nread := 2, nwrite := 2\<rparr>"
      by simp
    from T [of ?w ex_c, THEN conjunct2, THEN conjunct2, THEN conjunct1] h
    have "copy_loop ex_c ?w = copy_loop ex_c (?w\<lparr>nread := nread ?w + 1, nwrite := nwrite ?w + 1\<rparr>)"
      by blast
    then show ?thesis unfolding eq .
  qed
  have E: "copy_loop ex_c ex_w_idle = None"
  proof -
    have "\<forall>i. goes_on ex_w_idle i"
      by (simp add: goes_on_def rd_err_def ex_w_idle_def ex_w_def)
    with T [of ex_w_idle ex_c, THEN conjunct2, THEN conjunct2, THEN conjunct2, THEN conjunct1]
    show ?thesis by blast
  qed
  have F: "\<exists>c' w' j. copy_loop ex_c ex_w = Some (Complete, c', w') \<and>
      nread w' = nread ex_w + j + 1 \<and> rd_err ex_w (nread ex_w + j) = Some EOF"
  proof -
    from B obtain c' w' where l: "copy_loop ex_c ex_w = Some (Complete, c', w')" by blast
    from T [of ex_w ex_c _ _ c' w', THEN conjunct2, THEN conjunct2, THEN conjunct2,
        THEN conjunct2, THEN conjunct1, THEN mp, OF l] l
    show ?thesis by blast
  qed
  have G: "\<exists>r c' w' j. copy_loop ex_c ex_w_rfail = Some (Return r, c', w') \<and>
      nread w' = nread ex_w_rfail + j + 1"
  proof -
    from C obtain r c' w' where l: "copy_loop ex_c ex_w_rfail = Some (Return r, c', w')"
      by blast
    from T [of ex_w_rfail ex_c _ _ c' w' r, THEN conjunct2, THEN conjunct2, THEN conjunct2,
        THEN conjunct2, THEN conjunct2, THEN mp, OF l] l
    show ?thesis by blast
  qed
  from A B C D E F G ex_w_reads(1-4) show ?thesis by blast
qed

section \<open>Checksum mismatch\<close>

text \<open>
  C4, as stated, fails: with \<^verbatim>\<open>RemoveOnError\<close> set, the file is not always absent after a
  checksum mismatch. \<^verbatim>\<open>copy\<close> discards the error of \<^verbatim>\<open>os.Remove\<close> (line 151), so when the
  removal is refused the transfer still finalizes with the mismatch error, and the file
  is there with all its content.
\<close>

theorem copy_checksum_mismatch_file_kept_counterexample:
  "Hash (Request ex_c_sum) = Some ex_hash \<and> Checksum (Request ex_c_sum) = Some [0, 0] \<and>
   RemoveOnError (Request ex_c_sum) \<and> Filename ex_c_sum = ''f'' \<and>
   fs ex_w_locked ''f'' = Some [1, 2, 3, 4] \<and>
   digest ex_hash (absorbed ex_hash @ [1, 2, 3, 4]) = [10, 4] \<and>
   map_option fst (copy ex_c_sum ex_w_locked) =
     Some (Returned (Some (newGrabError errChecksumMismatch ''Checksum mismatch: %v''
        [''0a04'']))) \<and>
   map_option (\<lambda>(r, c', w'). Error c') (copy ex_c_sum ex_w_locked) =
     Some (Some (newGrabError errChecksumMismatch ''Checksum mismatch: %v'' [''0a04''])) \<and>
   map_option (\<lambda>(r, c', w'). fs w' ''f'') (copy ex_c_sum ex_w_locked) =
     Some (Some [1, 2, 3, 4])"
proof -
  have d: "digest ex_hash (absorbed ex_hash @ [1, 2, 3, 4]) = [10, 4]"
    by (simp add: ex_hash_def)
  have ne: "digest ex_hash (absorbed ex_hash @ [1, 2, 3, 4]) \<noteq> [0, 0]"
    by (simp add: ex_hash_def)
  have hex: "EncodeToString [10, 4] = ''0a04''" by (simp add: hextable_def)
  have w: "open_fault ex_w_locked = None" "read_fault ex_w_locked = None"
    "remove_fault ex_w_locked \<noteq> None" "fs ex_w_locked ''f'' = Some [1, 2, 3, 4]"
    by (simp_all add: ex_w_locked_def ex_w_def)
  have s: "writer ex_c_sum \<noteq> None" "Hash (Request ex_c_sum) = Some ex_hash"
    "Checksum (Request ex_c_sum) = Some [0, 0]" "RemoveOnError (Request ex_c_sum)"
    "Filename ex_c_sum = ''f''"
    by (simp_all add: ex_c_sum_def ex_c_def ex_rq_def)
  from s(5) w(4) have f: "fs ex_w_locked (Filename ex_c_sum) = Some [1, 2, 3, 4]" by simp
  from ex_w_locked_completes [of ex_c_sum] obtain c1 w1 where
    l: "copy_loop ex_c_sum ex_w_locked = Some (Complete, c1, w1)" by blast
  from copy_mismatch [OF s(1) l s(2,3) w(1) f w(2) ne] d hex s(4,5) w(3,4)
  have "map_option fst (copy ex_c_sum ex_w_locked) =
      Some (Returned (Some (newGrabError errChecksumMismatch ''Checksum mismatch: %v''
        [''0a04''])))"
    "map_option (\<lambda>(r, c', w'). Error c') (copy ex_c_sum ex_w_locked) =
      Some (Some (newGrabError errChecksumMismatch ''Checksum mismatch: %v'' [''0a04'']))"
    "map_option (\<lambda>(r, c', w'). fs w' ''f'') (copy ex_c_sum ex_w_locked) =
      Some (Some [1, 2, 3, 4])"
    by auto
  with d s w show ?thesis by simp
qed

text \<open>
  C4, amended. Let a hash and an expected digest be set, the copy complete normally, and
  the file be opened and read without fault. If the digest the hash computes over the
  file (after what the hash had absorbed before) differs from the expected one, \<^verbatim>\<open>copy\<close>
  returns, and records, the error built by \<^verbatim>\<open>newGrabError\<close> from the code
  \<^verbatim>\<open>errChecksumMismatch\<close> and the computed digest in hexadecimal, finalizing once; and
  afterwards the file is absent if and only if \<^verbatim>\<open>RemoveOnError\<close> is set and the removal
  succeeded. No other file is touched, and a file that was not removed keeps its content.
\<close>

theorem copy_checksum_mismatch:
  assumes "writer c \<noteq> None" and "copy_loop c w = Some (Complete, c1, w1)"
    and "Hash (Request c) = Some h" and "Checksum (Request c) = Some cs"
    and "open_fault w = None" and "fs w (Filename c) = Some content" and "read_fault w = None"
    and "digest h (absorbed h @ content) \<noteq> cs"
  shows "\<exists>c' w'. copy c w =
           Some (Returned (Some (newGrabError errChecksumMismatch
              ''Checksum mismatch: %v'' [EncodeToString (digest h (absorbed h @ content))])),
            c', w') \<and>
         Error c' = Some (newGrabError errChecksumMismatch
              ''Checksum mismatch: %v'' [EncodeToString (digest h (absorbed h @ content))]) \<and>
         doneFlag c' = doneFlag c + 1 \<and>
         (fs w' (Filename c) = None \<longleftrightarrow>
            RemoveOnError (Request c) \<and> remove_fault w = None) \<and>
         fs w' = (if RemoveOnError (Request c) \<and> remove_fault w = None
                  then (fs w)(Filename c := None) else fs w)"
  using assms by (rule copy_mismatch)

theorem copy_checksum_mismatch_witness:
  "writer ex_c_sum \<noteq> None \<and> Hash (Request ex_c_sum) = Some ex_hash \<and>
   Checksum (Request ex_c_sum) = Some [0, 0] \<and> open_fault ex_w = None \<and>
   fs ex_w (Filename ex_c_sum) = Some [1, 2, 3, 4] \<and> read_fault ex_w = None \<and>
   digest ex_hash (absorbed ex_hash @ [1, 2, 3, 4]) = [10, 4] \<and>
   RemoveOnError (Request ex_c_sum) \<and> remove_fault ex_w = None \<and>
   (\<exists>c' w'. copy ex_c_sum ex_w =
        Some (Returned (Some (newGrabError errChecksumMismatch ''Checksum mismatch: %v'' [''0a04''])), c', w') \<and>
      Error c' = Some (newGrabError errChecksumMismatch ''Checksum mismatch: %v'' [''0a04'']) \<and>
      doneFlag c' = 1 \<and> fs w' ''f'' = None) \<and>
   \<not> RemoveOnError (Request ex_c_keep) \<and>
   (\<exists>c' w'. copy ex_c_keep ex_w =
        Some (Returned (Some (newGrabError errChecksumMismatch ''Checksum mismatch: %v'' [''0a04''])), c', w') \<and>
      Error c' = Some (newGrabError errChecksumMismatch ''Checksum mismatch: %v'' [''0a04'']) \<and>
      doneFlag c' = 1 \<and> fs w' ''f'' = Some [1, 2, 3, 4]) \<and>
   remove_fault ex_w_locked = Some (IOError ''remove f: permission denied'') \<and>
   (\<exists>c' w'. copy ex_c_sum ex_w_locked =
        Some (Returned (Some (newGrabError errChecksumMismatch ''Checksum mismatch: %v'' [''0a04''])), c', w') \<and>
      Error c' = Some (newGrabError errChecksumMismatch ''Checksum mismatch: %v'' [''0a04'']) \<and>
      doneFlag c' = 1 \<and> fs w' ''f'' = Some [1, 2, 3, 4])"
proof -
  have d: "digest ex_hash (absorbed ex_hash @ [1, 2, 3, 4]) = [10, 4]"
    by (simp add: ex_hash_def)
  have ne: "digest ex_hash (absorbed ex_hash @ [1, 2, 3, 4]) \<noteq> [0, 0]"
    by (simp add: ex_hash_def)
  have hex: "EncodeToString [10, 4] = ''0a04''" by (simp add: hextable_def)
  have w: "open_fault ex_w = None" "read_fault ex_w = None" "remove_fault ex_w = None"
    by (simp_all add: ex_w_def)
  have x: "open_fault ex_w_locked = None" "read_fault ex_w_locked = None"
    "remove_fault ex_w_locked = Some (IOError ''remove f: permission denied'')"
    "fs ex_w_locked (Filename ex_c_sum) = Some [1, 2, 3, 4]"
    by (simp_all add: ex_w_locked_def ex_w_def ex_c_sum_def ex_c_def)
  have s: "writer ex_c_sum \<noteq> None" "Hash (Request ex_c_sum) = Some ex_hash"
    "Checksum (Request ex_c_sum) = Some [0, 0]" "fs ex_w (Filename ex_c_sum) = Some [1, 2, 3, 4]"
    "RemoveOnError (Request ex_c_sum)" "Filename ex_c_sum = ''f''" "doneFlag ex_c_sum = 0"
    by (simp_all add: ex_c_sum_def ex_c_def ex_rq_def ex_w_def)
  have k: "writer ex_c_keep \<noteq> None" "Hash (Request ex_c_keep) = Some ex_hash"
    "Checksum (Request ex_c_keep) = Some [0, 0]" "fs ex_w (Filename ex_c_keep) = Some [1, 2, 3, 4]"
    "\<not> RemoveOnError (Request ex_c_keep)" "Filename ex_c_keep = ''f''" "doneFlag ex_c_keep = 0"
    by (simp_all add: ex_c_keep_def ex_c_def ex_rq_def ex_w_def)
  from ex_w_completes [of ex_c_sum] obtain c1 w1 where
    l1: "copy_loop ex_c_sum ex_w = Some (Complete, c1, w1)" by blast
  from ex_w_completes [of ex_c_keep] obtain c2 w2 where
    l2: "copy_loop ex_c_keep ex_w = Some (Complete, c2, w2)" by blast
  from ex_w_locked_completes [of ex_c_sum] obtain c3 w3 where
    l3: "copy_loop ex_c_sum ex_w_locked = Some (Complete, c3, w3)" by blast
  from copy_checksum_mismatch [OF s(1) l1 s(2,3) w(1) s(4) w(2) ne] d hex s(5,6,7) w(3)
  have A: "\<exists>c' w'. copy ex_c_sum ex_w =
        Some (Returned (Some (newGrabError errChecksumMismatch ''Checksum mismatch: %v'' [''0a04''])), c', w') \<and>
      Error c' = Some (newGrabError errChecksumMismatch ''Checksum mismatch: %v'' [''0a04'']) \<and>
      doneFlag c' = 1 \<and> fs w' ''f'' = None"
    by auto
  from copy_checksum_mismatch [OF k(1) l2 k(2,3) w(1) k(4) w(2) ne] d hex k(4,5,6,7)
  have B: "\<exists>c' w'. copy ex_c_keep ex_w =
        Some (Returned (Some (newGrabError errChecksumMismatch ''Checksum mismatch: %v'' [''0a04''])), c', w') \<and>
      Error c' = Some (newGrabError errChecksumMismatch ''Checksum mismatch: %v'' [''0a04'']) \<and>
      doneFlag c' = 1 \<and> fs w' ''f'' = Some [1, 2, 3, 4]"
    by auto
  from copy_checksum_mismatch [OF s(1) l3 s(2,3) x(1) x(4) x(2) ne] d hex s(5,6,7) x(3,4)
  have C: "\<exists>c' w'. copy ex_c_sum ex_w_locked =
        Some (Returned (Some (newGrabError errChecksumMismatch ''Checksum mismatch: %v'' [''0a04''])), c', w') \<and>
      Error c' = Some (newGrabError errChecksumMismatch ''Checksum mismatch: %v'' [''0a04'']) \<and>
      doneFlag c' = 1 \<and> fs w' ''f'' = Some [1, 2, 3, 4]"
    by auto
  from A B C d w x s k show ?thesis by blast
qed

section \<open>No checksum, no validation\<close>

text \<open>
  C7. After a copy that completed normally, the file is opened for validation exactly
  when both a hash and an expected digest are set. When one of them is missing,
  \<^verbatim>\<open>copy\<close> returns nil and records nil, opens nothing and leaves the files alone,
  whatever they hold.
\<close>

theorem copy_without_checksum:
  assumes "writer c \<noteq> None" and "copy_loop c w = Some (Complete, c1, w1)"
  shows "\<exists>e c' w'. copy c w = Some (Returned e, c', w') \<and> Error c' = e \<and>
           (nopen w' = nopen w + 1 \<longleftrightarrow>
              Hash (Request c) \<noteq> None \<and> Checksum (Request c) \<noteq> None) \<and>
           (Hash (Request c) = None \<or> Checksum (Request c) = None \<longrightarrow>
              e = None \<and> nopen w' = nopen w \<and> fs w' = fs w \<and> doneFlag c' = doneFlag c + 1)"
proof -
  note fr = copy_loop_frame [OF assms(2)]
  obtain e c' w' where v: "validate c1 w1 = (e, c', w')" by (cases "validate c1 w1")
  note res = copy_Complete [OF assms v] and vf = validate_frame [OF v]
  show ?thesis
  proof (cases "Hash (Request c) = None \<or> Checksum (Request c) = None")
    case True
    with fr have "Hash (Request c1) = None \<or> Checksum (Request c1) = None" by simp
    from validate_skip_frame [OF this, of w1] v res vf fr True show ?thesis
      by (auto simp add: writer_Close_def)
  next
    case False
    then obtain h cs where "Hash (Request c) = Some h" "Checksum (Request c) = Some cs" by auto
    with fr have "Hash (Request c1) = Some h" "Checksum (Request c1) = Some cs" by simp_all
    from validate_nopen [OF v this] res vf fr False show ?thesis
      by (auto simp add: writer_Close_def)
  qed
qed

theorem copy_without_checksum_witness:
  "writer ex_c \<noteq> None \<and> Hash (Request ex_c) = None \<and>
   (\<exists>c' w'. copy_loop ex_c ex_w = Some (Complete, c', w')) \<and>
   (\<exists>c' w'. copy ex_c ex_w = Some (Returned None, c', w') \<and> Error c' = None \<and>
      doneFlag c' = 1 \<and> nopen w' = 0 \<and> fs w' = fs ex_w) \<and>
   (\<exists>e c' w'. copy ex_c_sum ex_w = Some (Returned e, c', w') \<and> nopen w' = 1)"
proof -
  have h: "writer ex_c \<noteq> None" "Hash (Request ex_c) = None" "doneFlag ex_c = 0"
    "nopen ex_w = 0"
    by (simp_all add: ex_c_def ex_rq_def ex_w_def)
  have s: "writer ex_c_sum \<noteq> None" "Hash (Request ex_c_sum) \<noteq> None"
    "Checksum (Request ex_c_sum) \<noteq> None"
    by (simp_all add: ex_c_sum_def ex_c_def ex_rq_def)
  from ex_w_completes [of ex_c] obtain c1 w1 where
    l1: "copy_loop ex_c ex_w = Some (Complete, c1, w1)" by blast
  from ex_w_completes [of ex_c_sum] obtain c2 w2 where
    l2: "copy_loop ex_c_sum ex_w = Some (Complete, c2, w2)" by blast
  from copy_without_checksum [OF h(1) l1] h(2,3,4)
  have A: "\<exists>c' w'. copy ex_c ex_w = Some (Returned None, c', w') \<and> Error c' = None \<and>
      doneFlag c' = 1 \<and> nopen w' = 0 \<and> fs w' = fs ex_w"
    by auto
  from copy_without_checksum [OF s(1) l2] s(2,3) h(4)
  have B: "\<exists>e c' w'. copy ex_c_sum ex_w = Some (Returned e, c', w') \<and> nopen w' = 1"
    by auto
  from A B h l1 show ?thesis by blast
qed

section \<open>Bytes that arrive with a read error\<close>

text \<open>
  C9. If the \<open>k\<close>-th read of a run (earlier passes having gone on) returns bytes
  together with an error other than end of stream, \<^verbatim>\<open>copy\<close> returns that error and
  finalizes with it; the writer holds, and the counter counts, the bytes of the \<open>k\<close>
  earlier reads only: no write is made for the bytes that came with the error.
\<close>

theorem copy_discards_bytes_read_with_error:
  assumes "\<forall>i<k. goes_on w i" and "body w (nread w + k) = (p, Some e)" and "e \<noteq> EOF"
    and "writer c \<noteq> None"
  shows "\<exists>c' w'. copy c w = Some (Returned (Some e), c', w') \<and> Error c' = Some e \<and>
           doneFlag c' = doneFlag c + 1 \<and>
           bytesTransferred c' =
             bytesTransferred c + of_nat (\<Sum>i<k. length (rd_buf w (nread w + i))) \<and>
           written w' = written w @ concat (map (\<lambda>i. rd_buf w (nread w + i)) [0..<k]) \<and>
           nread w' = nread w + k + 1 \<and> nwrite w' = nwrite w + k"
proof -
  from assms(2) have r: "rd_err (after_w k w) (nread (after_w k w)) = Some e"
    by (simp add: rd_err_def)
  then have stop: "\<not> goes_on w k" by (simp add: goes_on_def)
  from copy_loop_at [OF assms(1) stop, of c] copy_iter_fatal [OF r assms(3), of "after_c k c w"]
    copy_Return [OF assms(4)]
  show ?thesis by (simp add: writer_Close_def after_c_def after_w_def)
qed

theorem copy_discards_bytes_read_with_error_witness:
  "goes_on ex_w_rfail 0 \<and>
   body ex_w_rfail (nread ex_w_rfail + 1) = ([9, 9], Some (IOError ''connection reset by peer'')) \<and>
   writer ex_c \<noteq> None \<and>
   (\<exists>c' w'. copy ex_c ex_w_rfail =
        Some (Returned (Some (IOError ''connection reset by peer'')), c', w') \<and>
      Error c' = Some (IOError ''connection reset by peer'') \<and> doneFlag c' = 1 \<and>
      bytesTransferred c' = 3 \<and> written w' = [1, 2, 3] \<and> nread w' = 2 \<and> nwrite w' = 1)"
proof -
  have g: "goes_on ex_w_rfail 0"
    by (simp add: goes_on_def rd_err_def ex_w_rfail_def ex_w_def)
  then have a: "\<forall>i<1. goes_on ex_w_rfail i" by simp
  have b: "body ex_w_rfail (nread ex_w_rfail + 1) =
      ([9, 9], Some (IOError ''connection reset by peer''))"
    by (simp add: ex_w_rfail_def ex_w_def)
  have h: "writer ex_c \<noteq> None" by (simp add: ex_c_def)
  have v: "bytesTransferred ex_c + of_nat (\<Sum>i<1. length (rd_buf ex_w_rfail (nread ex_w_rfail + i))) = 3"
    "written ex_w_rfail @ concat (map (\<lambda>i. rd_buf ex_w_rfail (nread ex_w_rfail + i)) [0..<1]) = [1, 2, 3]"
    "doneFlag ex_c + 1 = 1" "nread ex_w_rfail + 1 + 1 = 2" "nwrite ex_w_rfail + 1 = 1"
    by (simp_all add: rd_buf_def ex_c_def ex_w_rfail_def ex_w_def)
  from copy_discards_bytes_read_with_error [OF a b _ h] v
  have "\<exists>c' w'. copy ex_c ex_w_rfail =
        Some (Returned (Some (IOError ''connection reset by peer'')), c', w') \<and>
      Error c' = Some (IOError ''connection reset by peer'') \<and> doneFlag c' = 1 \<and>
      bytesTransferred c' = 3 \<and> written w' = [1, 2, 3] \<and> nread w' = 2 \<and> nwrite w' = 1"
    by auto
  with g b h show ?thesis by blast
qed

section \<open>The command line drops its first argument\<close>

lemma main_usage:
  "main arg0 dest [] G =
     \<lparr>stderr = ''usage: '' @ arg0 @ '' url...'' @ [CHR 0x0A], exit_code = 1, batch = None\<rparr>"
  by (simp add: main_def)

lemma main_urls: "args \<noteq> [] \<Longrightarrow> batch (main arg0 dest args G) = Some (dest, tl args)"
  by (cases args) (auto simp add: main_def Let_def split: sum.splits)

text \<open>
  C6. The claim asks for the usage message and exit code 1 whenever no URL follows the
  first positional argument. With exactly one positional argument the code does neither:
  the guard only catches an empty argument list, so the one argument (by the usage text
  a URL) is dropped, \<^verbatim>\<open>GetBatch\<close> is called with no URL at all and the process exits
  with 0.
\<close>

theorem main_drops_the_only_url:
  "main ''grab'' ''.'' [''http://example.com/a''] ex_GetBatch =
     \<lparr>stderr = [], exit_code = 0, batch = Some (''.'', [])\<rparr>"
  by (simp add: main_def ex_GetBatch_def)

section \<open>Facts about rounding\<close>

lemma round_even_cases: "round_even q = \<lfloor>q\<rfloor> \<or> round_even q = \<lfloor>q\<rfloor> + 1"
  by (simp add: round_even_def Let_def)

lemma round_even_of_int [simp]: "round_even (of_int n) = n"
  by (simp add: round_even_def)

lemma round_even_ge: "of_int n \<le> q \<Longrightarrow> n \<le> round_even q"
proof -
  assume "of_int n \<le> q"
  then have "n \<le> \<lfloor>q\<rfloor>" by (simp add: le_floor_iff)
  with round_even_cases [of q] show ?thesis by auto
qed

lemma round_even_le: "q \<le> of_int n \<Longrightarrow> round_even q \<le> n"
proof (cases "q = of_int n")
  case True
  then show ?thesis by simp
next
  case False
  assume "q \<le> of_int n"
  with False have "q < of_int n" by simp
  then have "\<lfloor>q\<rfloor> < n" by (simp add: floor_less_iff)
  with round_even_cases [of q] show ?thesis by auto
qed

lemma round_even_gt_half: "of_int n + 1 / 2 < q \<Longrightarrow> n + 1 \<le> round_even q"
proof -
  assume a: "of_int n + 1 / 2 < q"
  then have "of_int n \<le> q" by simp
  then have f: "n \<le> \<lfloor>q\<rfloor>" by (simp add: le_floor_iff)
  show ?thesis
  proof (cases "n < \<lfloor>q\<rfloor>")
    case True
    with round_even_cases [of q] show ?thesis by auto
  next
    case False
    with f have "\<lfloor>q\<rfloor> = n" by simp
    with a show ?thesis by (simp add: round_even_def Let_def)
  qed
qed

lemma round_even_mono: "q \<le> q' \<Longrightarrow> round_even q \<le> round_even q'"
proof -
  assume a: "q \<le> q'"
  then have f: "\<lfloor>q\<rfloor> \<le> \<lfloor>q'\<rfloor>" by (rule floor_mono)
  show ?thesis
  proof (cases "\<lfloor>q\<rfloor> = \<lfloor>q'\<rfloor>")
    case True
    with a show ?thesis by (auto simp add: round_even_def Let_def)
  next
    case False
    with f have "\<lfloor>q\<rfloor> + 1 \<le> \<lfloor>q'\<rfloor>" by simp
    with round_even_cases [of q] round_even_cases [of q'] show ?thesis by auto
  qed
qed

lemma two_powi_mono: "a \<le> b \<Longrightarrow> (2::rat) powi a \<le> 2 powi b"
  by (rule power_int_increasing) simp_all

lemma two_powi_strict_mono: "a < b \<Longrightarrow> (2::rat) powi a < 2 powi b"
  by (rule power_int_strict_increasing) simp_all

lemma two_powi_less_D: "(2::rat) powi a < 2 powi b \<Longrightarrow> a < b"
  using two_powi_mono [of b a] by (cases "a < b") auto

lemma bitlen_rat_bounds:
  assumes "0 < p"
  shows "(2::rat) powi (bitlen p - 1) \<le> of_int p" and "of_int p < (2::rat) powi (bitlen p)"
proof -
  from bitlen_bounds [OF assms] have lo: "2 ^ nat (bitlen p - 1) \<le> p"
    and hi: "p < 2 ^ nat (bitlen p)" by simp_all
  have pos: "1 \<le> bitlen p" using assms bitlen_eq_zero_iff [of p] bitlen_nonneg [of p]
    by (cases "bitlen p = 0") auto
  from lo have "(of_int (2 ^ nat (bitlen p - 1)) :: rat) \<le> of_int p" by (simp only: of_int_le_iff)
  then show "(2::rat) powi (bitlen p - 1) \<le> of_int p"
    using pos by (simp add: power_int_def)
  from hi have "(of_int p :: rat) < of_int (2 ^ nat (bitlen p))" by (simp only: of_int_less_iff)
  then show "of_int p < (2::rat) powi (bitlen p)"
    using pos by (simp add: power_int_def)
qed

lemma ilog2_bounds:
  assumes "0 < x"
  shows "2 powi ilog2 x \<le> x" and "x < 2 powi (ilog2 x + 1)"
proof -
  obtain p q where pq: "quotient_of x = (p, q)" by (cases "quotient_of x")
  then have q: "0 < q" and x: "x = of_int p / of_int q"
    by (simp_all add: quotient_of_denom_pos quotient_of_div)
  from assms x q have p: "0 < p" by (simp add: zero_less_divide_iff)
  let ?d = "bitlen p - bitlen q"
  note bp = bitlen_rat_bounds [OF p] and bq = bitlen_rat_bounds [OF q]
  have qpos: "(0::rat) < of_int q" using q by simp
  have up: "x < 2 powi (?d + 1)"
  proof -
    have "x * of_int q = (of_int p :: rat)" using x q by simp
    also have "\<dots> < 2 powi bitlen p" by (rule bp(2))
    also have "\<dots> = 2 powi (?d + 1) * 2 powi (bitlen q - 1)"
      by (simp add: power_int_add [symmetric])
    also have "\<dots> \<le> 2 powi (?d + 1) * of_int q"
      using bq(1) by (simp add: mult_left_mono)
    finally show ?thesis using qpos by simp
  qed
  have lo: "2 powi (?d - 1) \<le> x"
  proof -
    have "(2::rat) powi (?d - 1) * of_int q \<le> 2 powi (?d - 1) * 2 powi bitlen q"
      using bq(2) by (simp add: mult_left_mono)
    also have "\<dots> = 2 powi (bitlen p - 1)"
      by (simp add: power_int_add [symmetric])
    also have "\<dots> \<le> of_int p" by (rule bp(1))
    also have "\<dots> = x * of_int q" using x q by simp
    finally show ?thesis using qpos by simp
  qed
  show "2 powi ilog2 x \<le> x" using pq lo by (simp add: ilog2_def Let_def)
  show "x < 2 powi (ilog2 x + 1)" using pq up by (auto simp add: ilog2_def Let_def)
qed

lemma ilog2_eq:
  assumes "2 powi e \<le> x" and "x < 2 powi (e + 1)"
  shows "ilog2 x = e"
proof -
  have "(0::rat) < 2 powi e" by simp
  from this assms(1) have pos: "0 < x" by (rule less_le_trans)
  note b = ilog2_bounds [OF pos]
  from b(1) assms(2) have "(2::rat) powi ilog2 x < 2 powi (e + 1)" by simp
  then have 1: "ilog2 x < e + 1" by (rule two_powi_less_D)
  from assms(1) b(2) have "(2::rat) powi e < 2 powi (ilog2 x + 1)" by simp
  then have 2: "e < ilog2 x + 1" by (rule two_powi_less_D)
  from 1 2 show ?thesis by simp
qed

lemma quantize_bounds:
  assumes "2 powi e \<le> x" and "x < 2 powi (e + 1)"
  shows "2 powi e \<le> quantize e x" and "quantize e x \<le> 2 powi (e + 1)"
proof -
  let ?u = "(2::rat) powi (e - 52)"
  have u: "0 < ?u" by simp
  have e: "(2::rat) powi e = 2 ^ 52 * ?u" "(2::rat) powi (e + 1) = 2 ^ 53 * ?u"
    by (simp_all add: power_int_diff power_int_add)
  from assms(1) u have "(of_int (2 ^ 52) :: rat) \<le> x / ?u"
    by (simp add: e pos_le_divide_eq)
  then have "2 ^ 52 \<le> round_even (x / ?u)" by (rule round_even_ge)
  then have "(of_int (2 ^ 52) :: rat) \<le> of_int (round_even (x / ?u))"
    by (simp only: of_int_le_iff)
  then have "2 ^ 52 * ?u \<le> of_int (round_even (x / ?u)) * ?u"
    using u by (simp add: mult_right_mono)
  then show "2 powi e \<le> quantize e x" by (simp add: quantize_def e)
  from assms(2) u have "x / ?u \<le> (of_int (2 ^ 53) :: rat)"
    by (simp add: e pos_divide_le_eq)
  then have "round_even (x / ?u) \<le> 2 ^ 53" by (rule round_even_le)
  then have "(of_int (round_even (x / ?u)) :: rat) \<le> of_int (2 ^ 53)"
    by (simp only: of_int_le_iff)
  then have "of_int (round_even (x / ?u)) * ?u \<le> 2 ^ 53 * ?u"
    using u by (simp add: mult_right_mono)
  then show "quantize e x \<le> 2 powi (e + 1)" by (simp add: quantize_def e)
qed

lemma rnd_normal:
  assumes "2 powi e \<le> x" and "x < 2 powi (e + 1)" and "- 1022 \<le> e" and "e \<le> 1022"
  shows "rnd x = Finite (quantize e x)"
proof -
  have "(0::rat) < 2 powi e" by simp
  from this assms(1) have pos: "0 < x" by (rule less_le_trans)
  have il: "ilog2 x = e" using assms(1,2) by (rule ilog2_eq)
  have "quantize e x \<le> 2 powi (e + 1)" using assms(1,2) by (rule quantize_bounds)
  also have "\<dots> \<le> 2 powi 1023" using assms(4) by (intro two_powi_mono) simp
  also have "\<dots> < (2::rat) powi 1024" by (intro two_powi_strict_mono) simp
  finally have fin: "\<not> 2 powi 1024 \<le> quantize e x" by simp
  have m: "max (ilog2 x) (- 1022) = e" using il assms(3) by simp
  have a: "\<bar>x\<bar> = x" "x \<noteq> 0" using pos by simp_all
  show ?thesis unfolding rnd_def Let_def a m using fin pos by simp
qed

lemma rnd_range:
  assumes "2 powi lo \<le> x" and "x < 2 powi hi" and "- 1022 \<le> lo" and "hi \<le> 1023"
  shows "rnd x = Finite (quantize (ilog2 x) x) \<and> 2 powi lo \<le> quantize (ilog2 x) x \<and>
         quantize (ilog2 x) x \<le> 2 powi hi"
proof -
  have "(0::rat) < 2 powi lo" by simp
  from this assms(1) have pos: "0 < x" by (rule less_le_trans)
  note b = ilog2_bounds [OF pos]
  from assms(1) b(2) have "(2::rat) powi lo < 2 powi (ilog2 x + 1)" by simp
  then have lo: "lo < ilog2 x + 1" by (rule two_powi_less_D)
  from b(1) assms(2) have "(2::rat) powi ilog2 x < 2 powi hi" by simp
  then have hi: "ilog2 x < hi" by (rule two_powi_less_D)
  note q = quantize_bounds [OF b]
  have 1: "rnd x = Finite (quantize (ilog2 x) x)"
    using b lo hi assms(3,4) by (intro rnd_normal) simp_all
  have "(2::rat) powi lo \<le> 2 powi ilog2 x" using lo by (intro two_powi_mono) simp
  with q(1) have 2: "2 powi lo \<le> quantize (ilog2 x) x" by simp
  have "(2::rat) powi (ilog2 x + 1) \<le> 2 powi hi" using hi by (intro two_powi_mono) simp
  with q(2) have 3: "quantize (ilog2 x) x \<le> 2 powi hi" by simp
  from 1 2 3 show ?thesis by simp
qed

lemma quantize_mono:
  assumes "0 < x" and "x \<le> y"
  shows "quantize (ilog2 x) x \<le> quantize (ilog2 y) y"
proof -
  from assms have y: "0 < y" by simp
  note bx = ilog2_bounds [OF assms(1)] and bz = ilog2_bounds [OF y]
  from bx(1) assms(2) bz(2) have "(2::rat) powi ilog2 x < 2 powi (ilog2 y + 1)" by simp
  then have le: "ilog2 x \<le> ilog2 y" using two_powi_less_D [of "ilog2 x" "ilog2 y + 1"] by simp
  show ?thesis
  proof (cases "ilog2 x = ilog2 y")
    case True
    let ?u = "(2::rat) powi (ilog2 y - 52)"
    have u: "0 < ?u" by simp
    from assms(2) u have "x / ?u \<le> y / ?u" by (simp add: divide_right_mono)
    then have "round_even (x / ?u) \<le> round_even (y / ?u)" by (rule round_even_mono)
    then have "(of_int (round_even (x / ?u)) :: rat) \<le> of_int (round_even (y / ?u))"
      by (simp only: of_int_le_iff)
    with u True show ?thesis by (simp add: quantize_def mult_right_mono)
  next
    case False
    with le have "ilog2 x + 1 \<le> ilog2 y" by simp
    then have "(2::rat) powi (ilog2 x + 1) \<le> 2 powi ilog2 y" by (rule two_powi_mono)
    with quantize_bounds(2) [OF bx] quantize_bounds(1) [OF bz] show ?thesis by simp
  qed
qed

lemma quantize_exact:
  assumes "x / 2 powi (e - 52) = of_int m"
  shows "quantize e x = x"
proof -
  have "(2::rat) powi (e - 52) \<noteq> 0" by simp
  with assms have "x = of_int m * 2 powi (e - 52)" by (simp add: nonzero_divide_eq_eq)
  with assms show ?thesis by (simp add: quantize_def)
qed

lemma quantize_gt_1:
  assumes "1 + 2 powi (- 53) < x"
  shows "1 < quantize (ilog2 x) x"
proof -
  have "(0::rat) < 2 powi (- 53)" by simp
  with assms have x1: "1 < x" by simp
  then have pos: "0 < x" by simp
  note b = ilog2_bounds [OF pos]
  from x1 b(2) have "(2::rat) powi 0 < 2 powi (ilog2 x + 1)" by simp
  then have e0: "0 \<le> ilog2 x" using two_powi_less_D [of 0 "ilog2 x + 1"] by simp
  show ?thesis
  proof (cases "ilog2 x = 0")
    case True
    have "(of_int (2 ^ 52) :: rat) + 1 / 2 < x * 2 ^ 52"
      using assms by (simp add: power_int_minus field_simps)
    then have "2 ^ 52 + 1 \<le> round_even (x * 2 ^ 52)" by (rule round_even_gt_half)
    then have "(of_int (2 ^ 52 + 1) :: rat) \<le> of_int (round_even (x * 2 ^ 52))"
      by (simp only: of_int_le_iff)
    then have "(2 ^ 52 + 1) / 2 ^ 52 \<le> (of_int (round_even (x * 2 ^ 52)) :: rat) / 2 ^ 52"
      by (simp add: divide_right_mono)
    moreover have "(1::rat) < (2 ^ 52 + 1) / 2 ^ 52" by simp
    ultimately have "1 < (of_int (round_even (x * 2 ^ 52)) :: rat) / 2 ^ 52" by simp
    with True show ?thesis by (simp add: quantize_def power_int_minus field_simps)
  next
    case False
    with e0 have "1 \<le> ilog2 x" by simp
    then have "(2::rat) powi 1 \<le> 2 powi ilog2 x" by (rule two_powi_mono)
    with quantize_bounds(1) [OF b] show ?thesis by simp
  qed
qed

lemma rnd_0 [simp]: "rnd 0 = Finite 0"
  by (simp add: rnd_def)

lemma rnd_int_exact:
  assumes "1 \<le> k" and "k \<le> 2 ^ 53"
  shows "rnd (of_int k) = Finite (of_int k)"
proof -
  let ?x = "of_int k :: rat"
  have lo: "2 powi 0 \<le> ?x" using assms(1) by simp
  have "?x \<le> of_int (2 ^ 53)" using assms(2) by (simp only: of_int_le_iff)
  then have hi: "?x < 2 powi 54" by simp
  from rnd_range [OF lo hi] have r: "rnd ?x = Finite (quantize (ilog2 ?x) ?x)" by simp
  have pos: "0 < ?x" using assms(1) by simp
  note b = ilog2_bounds [OF pos]
  from lo b(2) have "(2::rat) powi 0 < 2 powi (ilog2 ?x + 1)" by (rule le_less_trans)
  then have e0: "0 \<le> ilog2 ?x" using two_powi_less_D [of 0 "ilog2 ?x + 1"] by simp
  from b(1) hi have "(2::rat) powi ilog2 ?x < 2 powi 54" by (rule le_less_trans)
  then have e53: "ilog2 ?x \<le> 53" using two_powi_less_D [of "ilog2 ?x" 54] by simp
  have "\<exists>m. ?x / 2 powi (ilog2 ?x - 52) = of_int m"
  proof (cases "ilog2 ?x = 53")
    case True
    with b(1) have "(of_int (2 ^ 53) :: rat) \<le> of_int k" by simp
    then have "2 ^ 53 \<le> k" by (simp only: of_int_le_iff)
    with assms(2) have "k = 2 ^ 53" by simp
    with True have "?x / 2 powi (ilog2 ?x - 52) = of_int (2 ^ 52)" by simp
    then show ?thesis by blast
  next
    case False
    with e53 have le: "ilog2 ?x \<le> 52" by simp
    define j where "j = nat (52 - ilog2 ?x)"
    have "ilog2 ?x - 52 = - int j" using le by (simp add: j_def)
    then have "(2::rat) powi (ilog2 ?x - 52) = 1 / 2 ^ j"
      by (simp add: power_int_minus divide_inverse)
    then have "?x / 2 powi (ilog2 ?x - 52) = of_int (k * 2 ^ j)" by simp
    then show ?thesis by blast
  qed
  then obtain m where "?x / 2 powi (ilog2 ?x - 52) = of_int m" by blast
  from quantize_exact [OF this] r show ?thesis by simp
qed

lemma rnd_int_range:
  assumes "1 \<le> k" and "k < 2 ^ 64"
  shows "rnd (of_int k) = Finite (quantize (ilog2 (of_int k)) (of_int k)) \<and>
         1 \<le> quantize (ilog2 (of_int k)) (of_int k) \<and>
         quantize (ilog2 (of_int k)) (of_int k) \<le> 2 ^ 64"
proof -
  let ?x = "of_int k :: rat"
  have lo: "2 powi 0 \<le> ?x" using assms(1) by simp
  have "?x < of_int (2 ^ 64)" using assms(2) by (simp only: of_int_less_iff)
  then have hi: "?x < 2 powi 64" by simp
  from rnd_range [OF lo hi] show ?thesis by simp
qed

lemma rnd_int_mono:
  assumes "1 \<le> j" and "j \<le> k" and "k < 2 ^ 64"
    and "rnd (of_int j) = Finite a" and "rnd (of_int k) = Finite b"
  shows "a \<le> b"
proof -
  let ?x = "of_int j :: rat" and ?y = "of_int k :: rat"
  from assms(1,2,3) have k1: "1 \<le> k" and j64: "j < 2 ^ 64" by simp_all
  from rnd_int_range [OF assms(1) j64] assms(4) have a: "a = quantize (ilog2 ?x) ?x" by simp
  from rnd_int_range [OF k1 assms(3)] assms(5) have b: "b = quantize (ilog2 ?y) ?y" by simp
  have "0 < ?x" using assms(1) by simp
  moreover have "?x \<le> ?y" using assms(2) by simp
  ultimately show ?thesis unfolding a b by (rule quantize_mono)
qed

lemma uint64_pos:
  assumes "(n :: 64 word) \<noteq> 0"
  shows "1 \<le> uint n"
proof -
  from assms have "uint n \<noteq> 0" by (simp add: uint_0_iff)
  moreover have "0 \<le> uint n" by simp
  ultimately show ?thesis by linarith
qed

lemma uint64_less: "uint (n :: 64 word) < 2 ^ 64"
  using uint_bounded [of n] by simp

lemma f64_of_uint64_0 [simp]: "f64_of_uint64 0 = Finite 0"
  by (simp add: f64_of_uint64_def)

lemma f64_of_uint64_pos:
  assumes "n \<noteq> 0"
  shows "\<exists>r. f64_of_uint64 n = Finite r \<and> 1 \<le> r \<and> r \<le> 2 ^ 64"
  unfolding f64_of_uint64_def
  using rnd_int_range [OF uint64_pos [OF assms] uint64_less] by blast

lemma f64_of_uint64_exact:
  assumes "uint n \<le> 2 ^ 53"
  shows "f64_of_uint64 n = Finite (of_int (uint n))"
proof (cases "n = 0")
  case True
  then show ?thesis by simp
next
  case False
  then have "1 \<le> uint n" by (rule uint64_pos)
  from rnd_int_exact [OF this assms] show ?thesis unfolding f64_of_uint64_def .
qed

lemma f64_of_uint64_mono:
  assumes "m \<le> n" and "f64_of_uint64 m = Finite a" and "f64_of_uint64 n = Finite b"
  shows "a \<le> b"
proof (cases "m = 0")
  case True
  with assms(2) have "a = 0" by simp
  moreover have "0 \<le> b"
  proof (cases "n = 0")
    case True
    with assms(3) show ?thesis by simp
  next
    case False
    from f64_of_uint64_pos [OF this] assms(3) show ?thesis by auto
  qed
  ultimately show ?thesis by simp
next
  case False
  then have m1: "1 \<le> uint m" by (rule uint64_pos)
  from assms(1) have le: "uint m \<le> uint n" by (simp add: word_le_def)
  from assms(2,3) show ?thesis unfolding f64_of_uint64_def
    by (rule rnd_int_mono [OF m1 le uint64_less])
qed

lemma f64_div_pos:
  assumes "1 \<le> b" and "b \<le> 2 ^ 64" and "1 \<le> s" and "s \<le> 2 ^ 64"
  shows "f64_div (Finite b) (Finite s) = Finite (quantize (ilog2 (b / s)) (b / s)) \<and>
         2 powi (- 64) \<le> quantize (ilog2 (b / s)) (b / s)"
proof -
  have s: "0 < s" "s \<noteq> 0" using assms(3) by simp_all
  have "1 / 2 ^ 64 \<le> 1 / s" using assms(4) s(1) by (intro divide_left_mono) simp_all
  also have "\<dots> \<le> b / s" using assms(1) s by (simp add: divide_right_mono)
  finally have lo: "2 powi (- 64) \<le> b / s" by (simp add: inverse_eq_divide)
  have "b / s \<le> b / 1" using assms(1,3) by (intro divide_left_mono) simp_all
  also have "\<dots> \<le> 2 ^ 64" using assms(2) by simp
  also have "\<dots> < (2::rat) ^ 65" by simp
  finally have hi: "b / s < 2 powi 65" by simp
  from rnd_range [OF lo hi] s show ?thesis by simp
qed

lemma Progress_finite: "\<exists>r. Progress c = Finite r \<and> 0 \<le> r"
proof (cases "Size c = 0")
  case True
  then show ?thesis by (simp add: Progress_def)
next
  case False
  from f64_of_uint64_pos [OF this] obtain s where
    s: "f64_of_uint64 (Size c) = Finite s" "1 \<le> s" "s \<le> 2 ^ 64" by blast
  show ?thesis
  proof (cases "bytesTransferred c = 0")
    case True
    with False s show ?thesis by (simp add: Progress_def)
  next
    case bt: False
    from f64_of_uint64_pos [OF this] obtain b where
      b: "f64_of_uint64 (bytesTransferred c) = Finite b" "1 \<le> b" "b \<le> 2 ^ 64" by blast
    have "(0::rat) \<le> 2 powi (- 64)" by simp
    with f64_div_pos [OF b(2,3) s(2,3)] have
      "f64_div (Finite b) (Finite s) = Finite (quantize (ilog2 (b / s)) (b / s))"
      "0 \<le> quantize (ilog2 (b / s)) (b / s)"
      by simp_all
    with False s(1) b(1) show ?thesis by (simp add: Progress_def)
  qed
qed

lemma Progress_ge_1:
  assumes "Size c \<noteq> 0" and "Size c \<le> bytesTransferred c"
  shows "\<exists>r. Progress c = Finite r \<and> 1 \<le> r"
proof -
  from f64_of_uint64_pos [OF assms(1)] obtain s where
    s: "f64_of_uint64 (Size c) = Finite s" "1 \<le> s" "s \<le> 2 ^ 64" by blast
  from assms have "bytesTransferred c \<noteq> 0" by auto
  from f64_of_uint64_pos [OF this] obtain b where
    b: "f64_of_uint64 (bytesTransferred c) = Finite b" "1 \<le> b" "b \<le> 2 ^ 64" by blast
  from f64_of_uint64_mono [OF assms(2) s(1) b(1)] have sb: "s \<le> b" .
  have s0: "0 < s" using s(2) by simp
  with sb have lo: "2 powi 0 \<le> b / s" by (simp add: pos_le_divide_eq)
  have "b / s \<le> b / 1" using b(2) s(2) by (intro divide_left_mono) simp_all
  also have "\<dots> \<le> 2 ^ 64" using b(3) by simp
  also have "\<dots> < (2::rat) ^ 65" by simp
  finally have hi: "b / s < 2 powi 65" by simp
  from rnd_range [OF lo hi] s0 have
    "f64_div (Finite b) (Finite s) = Finite (quantize (ilog2 (b / s)) (b / s))"
    "1 \<le> quantize (ilog2 (b / s)) (b / s)"
    by simp_all
  with assms(1) s(1) b(1) show ?thesis by (simp add: Progress_def)
qed

lemma word64_succ:
  assumes "(x :: 64 word) < y" and "uint x < 2 ^ 53"
  shows "x + 1 \<le> y" and "uint (x + 1) = uint x + 1"
  using assms by (simp_all add: inc_le uint_word_ariths take_bit_int_eq_self)

lemma ratio_gt:
  assumes "1 \<le> s" and "s < 2 ^ 53" and "of_int (s + 1) \<le> (b :: rat)"
  shows "1 + 2 powi (- 53) < b / of_int s"
proof -
  have s0: "(0::rat) < of_int s" using assms(1) by simp
  have "(of_int s :: rat) < of_int (2 ^ 53)" using assms(2) by (simp only: of_int_less_iff)
  then have slt: "(of_int s :: rat) < 2 ^ 53" by simp
  have "1 + 2 powi (- 53) = (1::rat) + 1 / 2 ^ 53" by (simp add: inverse_eq_divide)
  also have "\<dots> < 1 + 1 / of_int s"
  proof -
    have "1 / 2 ^ 53 < 1 / (of_int s :: rat)"
      using slt s0 by (intro divide_strict_left_mono) simp_all
    then show ?thesis by (simp only: add_less_cancel_left)
  qed
  also have "\<dots> = (of_int s + 1) / of_int s" using s0 by (simp add: add_divide_distrib)
  also have "\<dots> \<le> b / of_int s" using assms(3) s0 by (simp add: divide_right_mono)
  finally show ?thesis .
qed

lemma Progress_gt_1:
  assumes "Size c \<noteq> 0" and "Size c < bytesTransferred c" and "uint (Size c) < 2 ^ 53"
  shows "\<exists>r. Progress c = Finite r \<and> 1 < r"
proof -
  define s where "s = uint (Size c)"
  have s1: "1 \<le> s" unfolding s_def using assms(1) by (rule uint64_pos)
  have s53: "s < 2 ^ 53" unfolding s_def by (rule assms(3))
  have fs: "f64_of_uint64 (Size c) = Finite (of_int s)"
    unfolding s_def using assms(3) by (intro f64_of_uint64_exact) simp
  note w = word64_succ [OF assms(2,3)]
  have "uint (Size c + 1) \<le> 2 ^ 53" using w(2) assms(3) by simp
  from f64_of_uint64_exact [OF this] w(2)
  have f1: "f64_of_uint64 (Size c + 1) = Finite (of_int (s + 1))"
    by (simp only: s_def)
  from assms(2) have "bytesTransferred c \<noteq> 0" by auto
  from f64_of_uint64_pos [OF this] obtain b where
    b: "f64_of_uint64 (bytesTransferred c) = Finite b" "1 \<le> b" "b \<le> 2 ^ 64" by blast
  from f64_of_uint64_mono [OF w(1) f1 b(1)] have sb: "of_int (s + 1) \<le> b" .
  note gt = ratio_gt [OF s1 s53 sb]
  have s0: "(0::rat) < of_int s" using s1 by simp
  have "(1::rat) < 1 + 2 powi (- 53)" by simp
  from this gt have "1 < b / of_int s" by (rule less_trans)
  then have lo: "2 powi 0 \<le> b / of_int s" by simp
  have "(1::rat) \<le> of_int s" using s1 by simp
  then have "b / of_int s \<le> b / 1" using b(2) by (intro divide_left_mono) simp_all
  also have "\<dots> \<le> 2 ^ 64" using b(3) by simp
  also have "\<dots> < (2::rat) ^ 65" by simp
  finally have hi: "b / of_int s < 2 powi 65" by simp
  from rnd_range [OF lo hi] s0 have
    "f64_div (Finite b) (Finite (of_int s)) =
       Finite (quantize (ilog2 (b / of_int s)) (b / of_int s))"
    by simp
  with quantize_gt_1 [OF gt] assms(1) fs b(1) show ?thesis by (simp add: Progress_def)
qed

lemma rnd_exact:
  assumes "2 powi e \<le> x" and "x < 2 powi (e + 1)" and "- 1022 \<le> e" and "e \<le> 1022"
    and "x / 2 powi (e - 52) = of_int m"
  shows "rnd x = Finite x"
  using rnd_normal [OF assms(1-4)] quantize_exact [OF assms(5)] by simp

lemma rnd_1 [simp]: "rnd 1 = Finite 1"
  using rnd_int_exact [of 1] by simp

lemma Seconds_0 [simp]: "Seconds 0 = Finite 0"
  by (simp add: Seconds_def f64_of_int64_def)

lemma Seconds_whole:
  assumes "0 < s" and "s \<le> 2 ^ 53"
  shows "Seconds (s * 1000000000) = Finite (of_int s)"
proof -
  have d: "(s * 1000000000) sdiv 1000000000 = s" "(s * 1000000000) smod 1000000000 = 0"
    using assms(1) by (simp_all add: signed_divide_int_def signed_modulo_int_def)
  have "1 \<le> s" using assms(1) by simp
  from rnd_int_exact [OF this assms(2)] show ?thesis
    by (simp add: Seconds_def f64_of_int64_def d)
qed

lemma f64_of_uint64_huge:
  "f64_of_uint64 (2 ^ 53) = Finite 9007199254740992"
  "f64_of_uint64 (2 ^ 53 + 1) = Finite 9007199254740992"
proof -
  show "f64_of_uint64 (2 ^ 53) = Finite 9007199254740992"
    using f64_of_uint64_exact [of "2 ^ 53"] by simp
  have "rnd 9007199254740993 = Finite (quantize 53 9007199254740993)"
    by (rule rnd_normal) simp_all
  moreover have "quantize 53 9007199254740993 = 9007199254740992"
  proof -
    have "\<lfloor>(9007199254740993::rat) / 2\<rfloor> = 4503599627370496"
      by (rule floor_unique) simp_all
    then show ?thesis by (simp add: quantize_def round_even_def Let_def)
  qed
  ultimately show "f64_of_uint64 (2 ^ 53 + 1) = Finite 9007199254740992"
    by (simp add: f64_of_uint64_def)
qed

section \<open>Progress of a transfer of unknown size\<close>

text \<open>
  C8. \<^verbatim>\<open>Progress\<close> is 0 whenever \<^verbatim>\<open>Size\<close> is 0, whatever the number of bytes
  transferred; otherwise it is the \<^verbatim>\<open>float64\<close> quotient of the two counters. In every
  state it is a finite number that is not negative: never not-a-number, never an
  infinity.
\<close>

theorem Progress_zero_size:
  "(Size c = 0 \<longrightarrow> Progress c = Finite 0) \<and>
   (Size c \<noteq> 0 \<longrightarrow>
      Progress c = f64_div (f64_of_uint64 (bytesTransferred c)) (f64_of_uint64 (Size c))) \<and>
   (\<exists>r. Progress c = Finite r \<and> 0 \<le> r)"
  using Progress_finite [of c] by (simp add: Progress_def)

theorem Progress_zero_size_witness:
  "Size (ex_c\<lparr>Size := 0, bytesTransferred := 5\<rparr>) = 0 \<and>
   Progress (ex_c\<lparr>Size := 0, bytesTransferred := 5\<rparr>) = Finite 0 \<and>
   Size (ex_c\<lparr>Size := 4, bytesTransferred := 1\<rparr>) \<noteq> 0 \<and>
   Progress (ex_c\<lparr>Size := 4, bytesTransferred := 1\<rparr>) = Finite (1 / 4)"
proof -
  let ?a = "ex_c\<lparr>Size := 0, bytesTransferred := 5\<rparr>"
  let ?b = "ex_c\<lparr>Size := 4, bytesTransferred := 1\<rparr>"
  have A: "Progress ?a = Finite 0" using Progress_zero_size [of ?a] by simp
  have q: "rnd (1 / 4) = Finite (1 / 4)"
    by (rule rnd_exact [where e = "- 2" and m = "2 ^ 52"]) simp_all
  have "f64_of_uint64 1 = Finite 1" "f64_of_uint64 4 = Finite 4"
    using f64_of_uint64_exact [of 1] f64_of_uint64_exact [of 4] by simp_all
  with q have B: "Progress ?b = Finite (1 / 4)" using Progress_zero_size [of ?b] by simp
  from A B show ?thesis by simp
qed

section \<open>Progress is not clamped\<close>

text \<open>
  C10, as stated, fails: with \<open>2 ^ 53\<close> bytes declared and one byte more transferred,
  both counters convert to the same \<^verbatim>\<open>float64\<close> and \<^verbatim>\<open>Progress\<close> is exactly 1, not
  more.
\<close>

theorem Progress_not_above_one_counterexample:
  "Size ex_c_huge \<noteq> 0 \<and> Size ex_c_huge < bytesTransferred ex_c_huge \<and>
   Progress ex_c_huge = Finite 1 \<and> \<not> f64_less (Finite 1) (Progress ex_c_huge)"
proof -
  have "Progress ex_c_huge =
      f64_div (f64_of_uint64 (2 ^ 53 + 1)) (f64_of_uint64 (2 ^ 53))"
    by (simp add: Progress_def ex_c_huge_def)
  then have "Progress ex_c_huge = Finite 1"
    by (simp only: f64_of_uint64_huge) simp
  moreover have "Size ex_c_huge < bytesTransferred ex_c_huge" "Size ex_c_huge \<noteq> 0"
    by (simp_all add: ex_c_huge_def)
  ultimately show ?thesis by simp
qed

text \<open>
  C10, amended. With \<^verbatim>\<open>Size\<close> not 0, \<^verbatim>\<open>Progress\<close> is the \<^verbatim>\<open>float64\<close> quotient of
  the two counters converted to \<^verbatim>\<open>float64\<close>; it does not depend on \<^verbatim>\<open>doneFlag\<close>
  and is not clamped. When both counters are at most \<open>2 ^ 53\<close> it is the exact quotient
  rounded once. When at least \<^verbatim>\<open>Size\<close> bytes were transferred it is at least 1, and
  when more were transferred and \<^verbatim>\<open>Size\<close> is below \<open>2 ^ 53\<close> it is greater than 1.
\<close>

theorem Progress_unclamped:
  assumes "Size c \<noteq> 0"
  shows "Progress c = f64_div (f64_of_uint64 (bytesTransferred c)) (f64_of_uint64 (Size c)) \<and>
         Progress (c\<lparr>doneFlag := d\<rparr>) = Progress c \<and>
         (uint (bytesTransferred c) \<le> 2 ^ 53 \<and> uint (Size c) \<le> 2 ^ 53 \<longrightarrow>
            Progress c = rnd (of_int (uint (bytesTransferred c)) / of_int (uint (Size c)))) \<and>
         (Size c \<le> bytesTransferred c \<longrightarrow> (\<exists>r. Progress c = Finite r \<and> 1 \<le> r)) \<and>
         (Size c < bytesTransferred c \<and> uint (Size c) < 2 ^ 53 \<longrightarrow>
            f64_less (Finite 1) (Progress c))"
proof (intro conjI impI)
  show "Progress c = f64_div (f64_of_uint64 (bytesTransferred c)) (f64_of_uint64 (Size c))"
    using assms by (simp add: Progress_def)
  show "Progress (c\<lparr>doneFlag := d\<rparr>) = Progress c" by (simp add: Progress_def)
next
  assume a: "uint (bytesTransferred c) \<le> 2 ^ 53 \<and> uint (Size c) \<le> 2 ^ 53"
  have s: "uint (Size c) \<noteq> 0" using assms by (simp add: uint_0_iff)
  from a have "f64_of_uint64 (bytesTransferred c) = Finite (of_int (uint (bytesTransferred c)))"
    "f64_of_uint64 (Size c) = Finite (of_int (uint (Size c)))"
    by (simp_all only: f64_of_uint64_exact)
  with assms s show "Progress c = rnd (of_int (uint (bytesTransferred c)) / of_int (uint (Size c)))"
    by (simp add: Progress_def del: of_int_uint)
next
  assume "Size c \<le> bytesTransferred c"
  with assms show "\<exists>r. Progress c = Finite r \<and> 1 \<le> r" by (rule Progress_ge_1)
next
  assume "Size c < bytesTransferred c \<and> uint (Size c) < 2 ^ 53"
  with Progress_gt_1 [OF assms] obtain r where "Progress c = Finite r" "1 < r" by blast
  then show "f64_less (Finite 1) (Progress c)" by simp
qed

theorem Progress_unclamped_witness:
  "Size (ex_c\<lparr>Size := 4, bytesTransferred := 6, doneFlag := 1\<rparr>) \<noteq> 0 \<and>
   Size (ex_c\<lparr>Size := 4, bytesTransferred := 6, doneFlag := 1\<rparr>) <
     bytesTransferred (ex_c\<lparr>Size := 4, bytesTransferred := 6, doneFlag := 1\<rparr>) \<and>
   Progress (ex_c\<lparr>Size := 4, bytesTransferred := 6, doneFlag := 1\<rparr>) = Finite (3 / 2) \<and>
   f64_less (Finite 1) (Progress (ex_c\<lparr>Size := 4, bytesTransferred := 6, doneFlag := 1\<rparr>))"
proof -
  let ?c = "ex_c\<lparr>Size := 4, bytesTransferred := 6, doneFlag := 1\<rparr>"
  have s: "Size ?c \<noteq> 0" by simp
  have q: "rnd (3 / 2) = Finite (3 / 2)"
    by (rule rnd_exact [where e = 0 and m = "3 * 2 ^ 51"]) simp_all
  note T = Progress_unclamped [OF s, of 0]
  from T have "uint (bytesTransferred ?c) \<le> 2 ^ 53 \<and> uint (Size ?c) \<le> 2 ^ 53 \<longrightarrow>
      Progress ?c = rnd (of_int (uint (bytesTransferred ?c)) / of_int (uint (Size ?c)))"
    by blast
  with q have A: "Progress ?c = Finite (3 / 2)" by simp
  from T have "Size ?c < bytesTransferred ?c \<and> uint (Size ?c) < 2 ^ 53 \<longrightarrow>
      f64_less (Finite 1) (Progress ?c)"
    by blast
  then have B: "f64_less (Finite 1) (Progress ?c)" by simp
  have C: "Size ?c < bytesTransferred ?c" by simp
  from s A B C show ?thesis by blast
qed

section \<open>Average speed over a duration of zero\<close>

text \<open>
  C5, as stated, fails: for an empty file whose transfer ended in the clock tick it
  started in, no byte over zero seconds is \<open>0 / 0\<close>, and \<^verbatim>\<open>AverageBytesPerSecond\<close>
  returns not-a-number, which is neither 0 nor the positive infinity.
\<close>

theorem AverageBytesPerSecond_nan_counterexample:
  "IsComplete ex_c_empty \<and> Duration ex_c_empty 500 = 0 \<and> BytesTransferred ex_c_empty = 0 \<and>
   AverageBytesPerSecond ex_c_empty 500 = NaN \<and>
   AverageBytesPerSecond ex_c_empty 500 \<noteq> Finite 0 \<and>
   AverageBytesPerSecond ex_c_empty 500 \<noteq> PosInf"
  by (simp add: AverageBytesPerSecond_def BytesTransferred_def Duration_def IsComplete_def
      Sub_def ex_c_empty_def ex_c_def)

text \<open>
  C5, amended. \<^verbatim>\<open>AverageBytesPerSecond\<close> is the \<^verbatim>\<open>float64\<close> quotient of the bytes
  transferred and the seconds of the duration; nothing panics. Over a duration of zero
  it is the positive infinity for every number of bytes other than 0. Over a whole
  number of seconds, with at most \<open>2 ^ 53\<close> bytes, it is the exact quotient rounded once.
\<close>

theorem AverageBytesPerSecond_zero_duration:
  "AverageBytesPerSecond c t =
     f64_div (f64_of_uint64 (bytesTransferred c)) (Seconds (Duration c t)) \<and>
   (Duration c t = 0 \<and> bytesTransferred c \<noteq> 0 \<longrightarrow> AverageBytesPerSecond c t = PosInf) \<and>
   (0 < s \<and> s \<le> 2 ^ 33 \<and> Duration c t = s * 1000000000 \<and>
    uint (bytesTransferred c) \<le> 2 ^ 53 \<longrightarrow>
      AverageBytesPerSecond c t = rnd (of_int (uint (bytesTransferred c)) / of_int s))"
proof (intro conjI impI)
  show "AverageBytesPerSecond c t =
     f64_div (f64_of_uint64 (bytesTransferred c)) (Seconds (Duration c t))"
    by (simp add: AverageBytesPerSecond_def BytesTransferred_def)
next
  assume a: "Duration c t = 0 \<and> bytesTransferred c \<noteq> 0"
  then have "bytesTransferred c \<noteq> 0" by simp
  from f64_of_uint64_pos [OF this] obtain b where
    "f64_of_uint64 (bytesTransferred c) = Finite b" "1 \<le> b" by blast
  with a show "AverageBytesPerSecond c t = PosInf"
    by (simp add: AverageBytesPerSecond_def BytesTransferred_def)
next
  assume a: "0 < s \<and> s \<le> 2 ^ 33 \<and> Duration c t = s * 1000000000 \<and>
    uint (bytesTransferred c) \<le> 2 ^ 53"
  then have s: "0 < s" "s \<le> 2 ^ 53" by simp_all
  from a have "f64_of_uint64 (bytesTransferred c) = Finite (of_int (uint (bytesTransferred c)))"
    by (simp only: f64_of_uint64_exact)
  with a Seconds_whole [OF s]
  show "AverageBytesPerSecond c t = rnd (of_int (uint (bytesTransferred c)) / of_int s)"
    by (simp add: AverageBytesPerSecond_def BytesTransferred_def del: of_int_uint)
qed

theorem AverageBytesPerSecond_zero_duration_witness:
  "Duration (ex_c\<lparr>bytesTransferred := 7\<rparr>) 0 = 0 \<and>
   bytesTransferred (ex_c\<lparr>bytesTransferred := 7\<rparr>) \<noteq> 0 \<and>
   AverageBytesPerSecond (ex_c\<lparr>bytesTransferred := 7\<rparr>) 0 = PosInf \<and>
   Duration (ex_c\<lparr>bytesTransferred := 7\<rparr>) 2000000000 = 2 * 1000000000 \<and>
   AverageBytesPerSecond (ex_c\<lparr>bytesTransferred := 7\<rparr>) 2000000000 = Finite (7 / 2)"
proof -
  let ?c = "ex_c\<lparr>bytesTransferred := 7\<rparr>"
  have d0: "Duration ?c 0 = 0" and d2: "Duration ?c 2000000000 = 2 * 1000000000"
    by (simp_all add: Duration_def IsComplete_def Sub_def ex_c_def)
  have b: "bytesTransferred ?c \<noteq> 0" "uint (bytesTransferred ?c) = 7" by simp_all
  have q: "rnd (7 / 2) = Finite (7 / 2)"
    by (rule rnd_exact [where e = 1 and m = "7 * 2 ^ 50"]) simp_all
  from AverageBytesPerSecond_zero_duration [of ?c 0 1]
  have "Duration ?c 0 = 0 \<and> bytesTransferred ?c \<noteq> 0 \<longrightarrow>
      AverageBytesPerSecond ?c 0 = PosInf"
    by blast
  with d0 b(1) have A: "AverageBytesPerSecond ?c 0 = PosInf" by blast
  from AverageBytesPerSecond_zero_duration [of ?c 2000000000 2]
  have "0 < (2::int) \<and> (2::int) \<le> 2 ^ 33 \<and> Duration ?c 2000000000 = 2 * 1000000000 \<and>
      uint (bytesTransferred ?c) \<le> 2 ^ 53 \<longrightarrow>
      AverageBytesPerSecond ?c 2000000000 = rnd (of_int (uint (bytesTransferred ?c)) / of_int 2)"
    by blast
  with d2 q have B: "AverageBytesPerSecond ?c 2000000000 = Finite (7 / 2)" by simp
  from d0 d2 b(1) A B show ?thesis by blast
qed

end
